theory Spec2Isabelle
  imports Complex_Main
begin

section \<open>Deterministic pseudo-random source\<close>

text \<open>
  \<^verbatim>\<open>let _seed = 1234567;
  function rand(){ _seed = ((_seed*1664525) + 1013904223) % 4294967296; return _seed/4294967296; }\<close>

  The seed stays below \<open>2^32\<close>, so every intermediate product is below \<open>2^53\<close> and the
  arithmetic of the script is exact integer arithmetic. The value returned by \<open>rand()\<close> is the
  new seed divided by \<open>2^32\<close>; the model keeps the numerator (the new seed) and writes every
  use of the quotient in integers: \<open>Math.floor(rand() * n)\<close> is \<open>(seed * n) div 2^32\<close> and
  \<open>rand() < p/q\<close> is \<open>seed * q < p * 2^32\<close>.
\<close>

type_synonym seed = nat

definition rand :: "seed \<Rightarrow> seed" where
  "rand s = (s * 1664525 + 1013904223) mod 4294967296"

definition floor_mul :: "seed \<Rightarrow> int \<Rightarrow> int" where
  "floor_mul r n = (int r * n) div 4294967296"

definition below :: "seed \<Rightarrow> nat \<Rightarrow> nat \<Rightarrow> bool" where
  "below r p q = (r * q < p * 4294967296)"

text \<open>\<open>Math.floor(rand() * arr.length)\<close>, for the value \<open>r / 2^32\<close> of \<open>rand()\<close>.\<close>

definition draw_index :: "nat \<Rightarrow> seed \<Rightarrow> nat" where
  "draw_index n r = nat (floor_mul r (int n))"

text \<open>\<^verbatim>\<open>function randint(a,b){ return a + Math.floor(rand()*(b-a+1)); }\<close>\<close>

definition randint :: "int \<Rightarrow> int \<Rightarrow> seed \<Rightarrow> int \<times> seed" where
  "randint a b s = (let r = rand s in (a + floor_mul r (b - a + 1), r))"

text \<open>
  \<^verbatim>\<open>function choice(arr){ return arr[Math.floor(rand()*arr.length)]; }\<close>

  On an empty array the index is 0 and the read gives \<open>undefined\<close>, which is \<open>None\<close> here.
\<close>

definition choice :: "'a list \<Rightarrow> seed \<Rightarrow> 'a option \<times> seed" where
  "choice arr s =
     (let r = rand s; i = draw_index (length arr) r
      in (if i < length arr then Some (arr ! i) else None, r))"

text \<open>
  \<^verbatim>\<open>function sample(arr,k){
    const res=[]; const s=new Set();
    if(k>=arr.length) return arr.slice();
    while(res.length<k){
      const i = Math.floor(rand()*arr.length);
      if(!s.has(i)){ s.add(i); res.push(arr[i]); }
    }
    return res;
  }\<close>

  The loop draws until it has seen \<open>k\<close> different indices; nothing in its text bounds the
  number of draws, so it is a partial function and \<open>None\<close> stands for a loop that never
  exits.
\<close>

partial_function (option) sample_loop :: "'a list \<Rightarrow> nat \<Rightarrow> 'a list \<Rightarrow> nat set \<Rightarrow> seed \<Rightarrow> ('a list \<times> seed) option" where
  "sample_loop arr k res s sd =
     (if length res < k then
        (let r = rand sd; i = draw_index (length arr) r
         in if i \<in> s then sample_loop arr k res s r
            else sample_loop arr k (res @ [arr ! i]) (insert i s) r)
      else Some (res, sd))"

definition sample :: "'a list \<Rightarrow> nat \<Rightarrow> seed \<Rightarrow> ('a list \<times> seed) option" where
  "sample arr k sd = (if k \<ge> length arr then Some (arr, sd) else sample_loop arr k [] {} sd)"

section \<open>Degree planner\<close>

text \<open>
  \<^verbatim>\<open>for(const id of allUserIds){
    const d = Math.max(1, Math.floor(randint(AVG_DEGREE - FRIEND_DEGREE_VARIANCE, AVG_DEGREE + FRIEND_DEGREE_VARIANCE)));
    baseDegrees[id] = d;
    sumBase += d;
  }\<close>
\<close>

fun base_pass :: "int \<Rightarrow> int \<Rightarrow> nat list \<Rightarrow> (nat \<rightharpoonup> int) \<times> int \<times> seed
    \<Rightarrow> (nat \<rightharpoonup> int) \<times> int \<times> seed" where
  "base_pass avg var [] st = st"
| "base_pass avg var (i # ids) (baseDegrees, sumBase, s) =
     (let (x, s') = randint (avg - var) (avg + var) s;
          d = max 1 x
      in base_pass avg var ids (baseDegrees(i \<mapsto> d), sumBase + d, s'))"

text \<open>
  \<^verbatim>\<open>const scaleFactor = sumBase > 0 ? (totalStubs / sumBase) : 1.0;
  ...
  let assigned = Math.max(1, Math.floor(baseDegrees[id] * scaleFactor));\<close>

  The quotient and the product are double-precision operations. The rounding of
  \<open>Math.floor(d * (totalStubs / sumBase))\<close> is the parameter \<open>fl\<close> of the model (called
  as \<open>fl d totalStubs sumBase\<close>), so that every result below holds for whatever the
  floating-point unit returns. \<open>exact_floor\<close> is the instance without rounding error.
\<close>

definition scaled :: "(int \<Rightarrow> int \<Rightarrow> int \<Rightarrow> int) \<Rightarrow> int \<Rightarrow> int \<Rightarrow> int \<Rightarrow> int" where
  "scaled fl totalStubs sumBase d = (if sumBase > 0 then fl d totalStubs sumBase else d)"

definition exact_floor :: "int \<Rightarrow> int \<Rightarrow> int \<Rightarrow> int" where
  "exact_floor d totalStubs sumBase = (d * totalStubs) div sumBase"

text \<open>A read of \<open>obj[id]\<close> that is only used as a number; every key read below has been
  written before.\<close>

definition num :: "(nat \<rightharpoonup> int) \<Rightarrow> nat \<Rightarrow> int" where
  "num m i = (case m i of Some d \<Rightarrow> d | None \<Rightarrow> 0)"

fun scale_pass :: "(int \<Rightarrow> int) \<Rightarrow> (nat \<rightharpoonup> int) \<Rightarrow> nat list \<Rightarrow> (nat \<rightharpoonup> int) \<times> int
    \<Rightarrow> (nat \<rightharpoonup> int) \<times> int" where
  "scale_pass f baseDegrees [] st = st"
| "scale_pass f baseDegrees (i # ids) (targetDegrees, sumAssigned) =
     (let assigned = max 1 (f (num baseDegrees i))
      in scale_pass f baseDegrees ids (targetDegrees(i \<mapsto> assigned), sumAssigned + assigned))"

text \<open>
  \<^verbatim>\<open>while(remaining > 0 && idsLen>0){
    const id = allUserIds[idx % idsLen];
    targetDegrees[id] += 1;
    remaining--;
    idx++;
  }\<close>
\<close>

function distribute :: "nat list \<Rightarrow> (nat \<rightharpoonup> int) \<Rightarrow> int \<Rightarrow> nat \<Rightarrow> (nat \<rightharpoonup> int) \<times> int" where
  "distribute allUserIds targetDegrees remaining idx =
     (if remaining > 0 \<and> length allUserIds > 0 then
        (let i = allUserIds ! (idx mod length allUserIds)
         in distribute allUserIds (targetDegrees(i \<mapsto> num targetDegrees i + 1)) (remaining - 1) (idx + 1))
      else (targetDegrees, remaining))"
  by pat_completeness auto
termination
  by (relation "measure (\<lambda>(ids, t, r, idx). nat r)") auto

declare distribute.simps [simp del]

text \<open>
  \<^verbatim>\<open>while(remaining < 0 && idsLen>0){
    const id = allUserIds[idx % idsLen];
    if(targetDegrees[id] > 1){ targetDegrees[id] -= 1; remaining++; }
    idx++;
  }\<close>

  Nothing bounds the number of rounds of this loop: a round in which no target exceeds 1
  changes nothing but \<open>idx\<close>. The result \<open>None\<close> stands for a loop that never exits.
\<close>

partial_function (option) trim :: "nat list \<Rightarrow> (nat \<rightharpoonup> int) \<Rightarrow> int \<Rightarrow> nat \<Rightarrow> ((nat \<rightharpoonup> int) \<times> int) option" where
  "trim allUserIds targetDegrees remaining idx =
     (if remaining < 0 \<and> length allUserIds > 0 then
        (let i = allUserIds ! (idx mod length allUserIds)
         in if num targetDegrees i > 1
            then trim allUserIds (targetDegrees(i \<mapsto> num targetDegrees i - 1)) (remaining + 1) (idx + 1)
            else trim allUserIds targetDegrees remaining (idx + 1))
      else Some (targetDegrees, remaining))"

text \<open>
  The planner, lines 194 to 235 of the script. \<open>plan_degrees\<close> is everything after the
  edge budget \<open>targetEdges\<close> has been drawn: the base degrees, the scaled targets and the
  two correction loops. It returns the target degrees and the seed it leaves behind.
\<close>

definition plan_degrees :: "(int \<Rightarrow> int \<Rightarrow> int \<Rightarrow> int) \<Rightarrow> int \<Rightarrow> int \<Rightarrow> int \<Rightarrow> nat list \<Rightarrow> seed
    \<Rightarrow> ((nat \<rightharpoonup> int) \<times> seed) option" where
  "plan_degrees fl targetEdges avg var allUserIds s1 =
     (let totalStubs = targetEdges * 2;
          (baseDegrees, sumBase, s2) = base_pass avg var allUserIds (Map.empty, 0, s1);
          (targetDegrees, sumAssigned) =
             scale_pass (scaled fl totalStubs sumBase) baseDegrees allUserIds (Map.empty, 0);
          (targetDegrees1, remaining1) =
             distribute allUserIds targetDegrees (totalStubs - sumAssigned) 0
      in if remaining1 < 0
         then (case trim allUserIds targetDegrees1 remaining1 0 of
                 None \<Rightarrow> None
               | Some (targetDegrees2, remaining2) \<Rightarrow> Some (targetDegrees2, s2))
         else Some (targetDegrees1, s2))"

definition degree_planner :: "(int \<Rightarrow> int \<Rightarrow> int \<Rightarrow> int) \<Rightarrow> int \<Rightarrow> int \<Rightarrow> int \<Rightarrow> int \<Rightarrow> nat list \<Rightarrow> seed
    \<Rightarrow> ((nat \<rightharpoonup> int) \<times> int \<times> seed) option" where
  "degree_planner fl edgeMin edgeMax avg var allUserIds s0 =
     (let (targetEdges, s1) = randint edgeMin edgeMax s0
      in case plan_degrees fl targetEdges avg var allUserIds s1 of
           None \<Rightarrow> None
         | Some (targetDegrees, s2) \<Rightarrow> Some (targetDegrees, targetEdges, s2))"

text \<open>\<^verbatim>\<open>Object.values(targetDegrees).reduce((a,b)=>a+b,0)\<close>, for a key set that is the
  id list without repetition.\<close>

definition sum_targets :: "nat list \<Rightarrow> (nat \<rightharpoonup> int) \<Rightarrow> int" where
  "sum_targets ids t = sum_list (map (num t) ids)"

section \<open>Pair keys\<close>

text \<open>
  User ids are the positive integers handed out by \<open>GLOBAL_USER_ID++\<close>; \<open>toString\<close> is
  their decimal representation (\<open>Number.prototype.toString\<close> on an integer below
  \<open>10^21\<close>).
\<close>

definition digit_char :: "nat \<Rightarrow> char" where
  "digit_char d = ''0123456789'' ! d"

function toString :: "nat \<Rightarrow> string" where
  "toString n = (if n < 10 then [digit_char n] else toString (n div 10) @ [digit_char (n mod 10)])"
  by pat_completeness auto
termination
  by (relation "measure id") auto

declare toString.simps [simp del]

text \<open>The comparison \<open>s < t\<close> of two JavaScript strings: lexicographic, by code unit.\<close>

fun str_less :: "string \<Rightarrow> string \<Rightarrow> bool" where
  "str_less [] [] = False"
| "str_less [] (y # ys) = True"
| "str_less (x # xs) [] = False"
| "str_less (x # xs) (y # ys) =
     (if (of_char x :: nat) < of_char y then True
      else if (of_char y :: nat) < of_char x then False
      else str_less xs ys)"

text \<open>
  \<^verbatim>\<open>function pairKey(a,b){
    const s = a.toString(), t = b.toString();
    return (s < t) ? s+"|"+t : t+"|"+s;
  }\<close>
\<close>

definition pairKey :: "nat \<Rightarrow> nat \<Rightarrow> string" where
  "pairKey a b =
     (let s = toString a; t = toString b
      in if str_less s t then s @ ''|'' @ t else t @ ''|'' @ s)"

section \<open>Neighbor selector\<close>

text \<open>The index structures built while the users are created.\<close>

record world =
  allUserIds :: "nat list"
  idsByCommunity :: "nat \<rightharpoonup> nat list"
  idsByCity :: "string \<rightharpoonup> nat list"
  userCommunityMap :: "nat \<rightharpoonup> nat"
  userCityMap :: "nat \<rightharpoonup> string"

text \<open>\<open>idsByCommunity[cidx] && idsByCommunity[cidx].length > 1\<close>: the entry exists and has
  more than one member. A missing key of the first map gives the key \<open>undefined\<close>, which the
  second map does not have.\<close>

definition usable :: "nat list option \<Rightarrow> bool" where
  "usable p = (case p of None \<Rightarrow> False | Some l \<Rightarrow> length l > 1)"

definition members :: "nat list option \<Rightarrow> nat list" where
  "members p = (case p of None \<Rightarrow> [] | Some l \<Rightarrow> l)"

definition communityList :: "world \<Rightarrow> nat \<Rightarrow> nat list option" where
  "communityList w uId = (case userCommunityMap w uId of None \<Rightarrow> None | Some cidx \<Rightarrow> idsByCommunity w cidx)"

definition cityList :: "world \<Rightarrow> nat \<Rightarrow> nat list option" where
  "cityList w uId = (case userCityMap w uId of None \<Rightarrow> None | Some city \<Rightarrow> idsByCity w city)"

definition pool_of :: "world \<Rightarrow> nat \<Rightarrow> seed \<Rightarrow> nat list" where
  "pool_of w uId r =
     (if below r 3 4 \<and> usable (communityList w uId) then members (communityList w uId)
      else if below r 9 10 \<and> usable (cityList w uId) then members (cityList w uId)
      else allUserIds w)"

text \<open>
  \<^verbatim>\<open>let best = null;
  let bestDeg = -1;
  for(const cand of candidates){
    const dv = degree[cand] || 0;
    if(dv > bestDeg && cand !== uId) { best = cand; bestDeg = dv; }
  }\<close>
\<close>

fun best_of :: "(nat \<rightharpoonup> int) \<Rightarrow> nat \<Rightarrow> nat list \<Rightarrow> nat option \<times> int \<Rightarrow> nat option \<times> int" where
  "best_of degree uId [] (best, bestDeg) = (best, bestDeg)"
| "best_of degree uId (cand # cs) (best, bestDeg) =
     (let dv = num degree cand
      in if dv > bestDeg \<and> cand \<noteq> uId then best_of degree uId cs (Some cand, dv)
         else best_of degree uId cs (best, bestDeg))"

text \<open>\<open>!best\<close>: \<open>null\<close> and the number 0 are falsy.\<close>

definition falsy :: "nat option \<Rightarrow> bool" where
  "falsy v = (case v of None \<Rightarrow> True | Some n \<Rightarrow> n = 0)"

text \<open>
  \<^verbatim>\<open>function pickNeighbor(uId){
    const cidx = userCommunityMap[uId];
    const city = userCityMap[uId];
    const r = rand();
    let pool = [];
    if(r < 0.75 && idsByCommunity[cidx] && idsByCommunity[cidx].length > 1){ pool = idsByCommunity[cidx]; }
    else if(r < 0.9 && idsByCity[city] && idsByCity[city].length > 1){ pool = idsByCity[city]; }
    else { pool = allUserIds; }
    const candidates = sample(pool.filter(id => id !== uId), Math.min(6, Math.max(0, pool.length-1)));
    ...
    if(!best && candidates.length) best = candidates[0];
    return best;
  }\<close>

  The result is \<open>None\<close> when the sampling loop never exits, and otherwise the value
  returned (\<open>None\<close> for \<open>null\<close>) with the seed left behind.
\<close>

definition pickNeighbor :: "world \<Rightarrow> (nat \<rightharpoonup> int) \<Rightarrow> nat \<Rightarrow> seed \<Rightarrow> (nat option \<times> seed) option" where
  "pickNeighbor w degree uId sd =
     (let r = rand sd;
          pool = pool_of w uId r
      in case sample (filter (\<lambda>i. i \<noteq> uId) pool) (min 6 (length pool - 1)) r of
           None \<Rightarrow> None
         | Some (candidates, sd') \<Rightarrow>
             (let (best, bestDeg) = best_of degree uId candidates (None, - 1)
              in Some (if falsy best \<and> candidates \<noteq> [] then Some (hd candidates) else best, sd')))"

section \<open>Batch sink\<close>

text \<open>
  The document store is outside the script. What the script can see of a call
  \<open>db.c.insertMany(batch, { ordered: false })\<close> is whether it throws; the model takes that
  behaviour as a parameter: a function from the batches submitted so far and the batch
  submitted now to \<open>Inl e\<close> (the call throws \<open>e\<close>) or \<open>Inr ()\<close> (it returns). An
  exception is represented by its message.
\<close>

type_synonym 'd insertMany = "'d list list \<Rightarrow> 'd list \<Rightarrow> string + unit"

text \<open>\<open>try { body } catch(e){ handler }\<close>\<close>

definition try_catch :: "string + 'a \<Rightarrow> (string \<Rightarrow> string + 'a) \<Rightarrow> string + 'a" where
  "try_catch body handler = (case body of Inl e \<Rightarrow> handler e | Inr v \<Rightarrow> Inr v)"

section \<open>Edge builder, undirected\<close>

text \<open>\<^verbatim>\<open>{ type: 'friend', src: uId, dst: vId, pair: k, weight: 1.0 }\<close>\<close>

record friend_edge =
  etype :: string
  src :: nat
  dst :: nat
  pair :: string
  weight :: rat

text \<open>
  The variables the friend-edge loops read and write. \<open>submitted\<close> lists the batches
  handed to \<open>db.edges.insertMany\<close>, oldest first, and \<open>printed\<close> the lines written by
  \<open>print\<close>.
\<close>

record fstate =
  seed :: seed
  degree :: "nat \<rightharpoonup> int"
  friendSet :: "string set"
  edgeBatch :: "friend_edge list"
  totalEdges :: int
  progressCounter :: int
  submitted :: "friend_edge list list"
  printed :: "string list"

text \<open>The configuration of one run of the builder; \<open>retryFactor\<close> is the constant 15 of
  \<open>tries++ > desired * 15\<close> (10 in the earlier version of the script).\<close>

record fconfig =
  fworld :: world
  targetDegrees :: "nat \<rightharpoonup> int"
  targetEdges :: int
  retryFactor :: int
  BATCH_SIZE :: nat
  insertEdges :: "friend_edge insertMany"

text \<open>
  \<^verbatim>\<open>function flushEdges(){
    if(edgeBatch.length){
      try {
        db.edges.insertMany(edgeBatch, { ordered: false });
      } catch(e){
        // duplicates or other errors shouldn't stop the run; print and continue
        print("Edge batch insert warning:", e);
      }
      edgeBatch = [];
    }
  }\<close>
\<close>

definition flushEdges :: "fconfig \<Rightarrow> fstate \<Rightarrow> string + fstate" where
  "flushEdges c st =
     (if edgeBatch st \<noteq> [] then
        (case try_catch
                (case insertEdges c (submitted st) (edgeBatch st) of
                   Inl e \<Rightarrow> Inl e
                 | Inr u \<Rightarrow> Inr (st\<lparr>submitted := submitted st @ [edgeBatch st]\<rparr>))
                (\<lambda>e. Inr (st\<lparr>submitted := submitted st @ [edgeBatch st],
                              printed := printed st @ [''Edge batch insert warning: '' @ e]\<rparr>)) of
           Inl e \<Rightarrow> Inl e
         | Inr st1 \<Rightarrow> Inr (st1\<lparr>edgeBatch := []\<rparr>))
      else Inr st)"

text \<open>\<open>degree[uId] < desired\<close>; a missing counter compares as false.\<close>

definition degree_below :: "(nat \<rightharpoonup> int) \<Rightarrow> nat \<Rightarrow> int \<Rightarrow> bool" where
  "degree_below dg uId desired = (case dg uId of None \<Rightarrow> False | Some d \<Rightarrow> d < desired)"

text \<open>
  The part of the loop body that accepts an edge, in three steps:
  \<^verbatim>\<open>friendSet[k] = true;
  edgeBatch.push({ type: 'friend', src: uId, dst: vId, pair: k, weight: 1.0 });
  degree[uId]++; degree[vId] = (degree[vId] || 0) + 1;
  totalEdges++;\<close>
\<close>

definition push_edge :: "nat \<Rightarrow> nat \<Rightarrow> string \<Rightarrow> fstate \<Rightarrow> fstate" where
  "push_edge uId vId k st =
     (let dg1 = (degree st)(uId \<mapsto> num (degree st) uId + 1)
      in st\<lparr>friendSet := insert k (friendSet st),
            edgeBatch := edgeBatch st @ [\<lparr>etype = ''friend'', src = uId, dst = vId, pair = k, weight = 1\<rparr>],
            degree := dg1(vId \<mapsto> num dg1 vId + 1),
            totalEdges := totalEdges st + 1\<rparr>)"

text \<open>\<^verbatim>\<open>if(++progressCounter % 50000 === 0) print("Friend edges produced so far: " + totalEdges);\<close>\<close>

definition note_progress :: "fstate \<Rightarrow> fstate" where
  "note_progress st =
     (let st1 = st\<lparr>progressCounter := progressCounter st + 1\<rparr>
      in if progressCounter st1 mod 50000 = 0
         then st1\<lparr>printed := printed st1 @
                [''Friend edges produced so far: '' @ toString (nat (totalEdges st1))]\<rparr>
         else st1)"

text \<open>Between the two: \<^verbatim>\<open>if(edgeBatch.length >= BATCH_SIZE) flushEdges();\<close>\<close>

definition accept_edge :: "fconfig \<Rightarrow> nat \<Rightarrow> nat \<Rightarrow> string \<Rightarrow> fstate \<Rightarrow> string + fstate" where
  "accept_edge c uId vId k st =
     (case (if length (edgeBatch (push_edge uId vId k st)) \<ge> BATCH_SIZE c
            then flushEdges c (push_edge uId vId k st)
            else Inr (push_edge uId vId k st)) of
        Inl e \<Rightarrow> Inl e
      | Inr st' \<Rightarrow> Inr (note_progress st'))"

text \<open>
  \<^verbatim>\<open>while (degree[uId] < desired && totalEdges < targetEdges) {
    if (tries++ > desired * 15) break; // avoid infinite loops for hard-to-find neighbors
    const vId = pickNeighbor(uId);
    if (!vId) continue;
    if (uId === vId) continue;
    const k = pairKey(uId, vId);
    if (friendSet[k]) continue;
    ...
  }\<close>

  The loop returns the state and the final value of \<open>tries\<close>, which counts the evaluations
  of the test \<open>tries++ > desired * 15\<close>. \<open>None\<close> is a call of \<open>pickNeighbor\<close> that never
  returns, \<open>Some (Inl e)\<close> an exception that leaves the loop. \<open>!vId\<close> holds for
  \<open>null\<close> and for the number 0.
\<close>

function friend_loop :: "fconfig \<Rightarrow> nat \<Rightarrow> int \<Rightarrow> int \<Rightarrow> fstate \<Rightarrow> (string + fstate \<times> int) option" where
  "friend_loop c uId desired tries st =
     (if degree_below (degree st) uId desired \<and> totalEdges st < targetEdges c then
        (if tries > desired * retryFactor c then Some (Inr (st, tries + 1))
         else
           (case pickNeighbor (fworld c) (degree st) uId (seed st) of
              None \<Rightarrow> None
            | Some (None, sd) \<Rightarrow> friend_loop c uId desired (tries + 1) (st\<lparr>seed := sd\<rparr>)
            | Some (Some vId, sd) \<Rightarrow>
                (if vId = 0 then friend_loop c uId desired (tries + 1) (st\<lparr>seed := sd\<rparr>)
                 else if uId = vId then friend_loop c uId desired (tries + 1) (st\<lparr>seed := sd\<rparr>)
                 else if pairKey uId vId \<in> friendSet st
                   then friend_loop c uId desired (tries + 1) (st\<lparr>seed := sd\<rparr>)
                 else
                   (case accept_edge c uId vId (pairKey uId vId) (st\<lparr>seed := sd\<rparr>) of
                      Inl e \<Rightarrow> Some (Inl e)
                    | Inr st' \<Rightarrow> friend_loop c uId desired (tries + 1) st'))))
      else Some (Inr (st, tries)))"
  by pat_completeness auto
termination
  by (relation "measure (\<lambda>(c, uId, desired, tries, st). nat (desired * retryFactor c + 1 - tries))") auto

declare friend_loop.simps [simp del]

text \<open>
  \<^verbatim>\<open>for(const uId of allUserIds){
    const desired = targetDegrees[uId] || 1;
    let tries = 0;
    while (...) { ... }
    if (totalEdges >= targetEdges) break;
  }\<close>
\<close>

definition desired_of :: "fconfig \<Rightarrow> nat \<Rightarrow> int" where
  "desired_of c uId = (case targetDegrees c uId of None \<Rightarrow> 1 | Some t \<Rightarrow> if t = 0 then 1 else t)"

fun friend_users :: "fconfig \<Rightarrow> nat list \<Rightarrow> fstate \<Rightarrow> (string + fstate) option" where
  "friend_users c [] st = Some (Inr st)"
| "friend_users c (uId # rest) st =
     (case friend_loop c uId (desired_of c uId) 0 st of
        None \<Rightarrow> None
      | Some (Inl e) \<Rightarrow> Some (Inl e)
      | Some (Inr (st', tries)) \<Rightarrow>
          if totalEdges st' \<ge> targetEdges c then Some (Inr st') else friend_users c rest st')"

text \<open>
  The whole phase, lines 276 to 299: the loop over the users from an empty dedup set, an
  empty batch and a zero edge count, then the final \<open>flushEdges()\<close>. The degree counters
  and the seed are those left by the earlier phases.
\<close>

definition friend_init :: "(nat \<rightharpoonup> int) \<Rightarrow> seed \<Rightarrow> fstate" where
  "friend_init dg sd =
     \<lparr>seed = sd, degree = dg, friendSet = {}, edgeBatch = [], totalEdges = 0,
      progressCounter = 0, submitted = [], printed = []\<rparr>"

definition friend_edges :: "fconfig \<Rightarrow> (nat \<rightharpoonup> int) \<Rightarrow> seed \<Rightarrow> (string + fstate) option" where
  "friend_edges c dg sd =
     (case friend_users c (allUserIds (fworld c)) (friend_init dg sd) of
        None \<Rightarrow> None
      | Some (Inl e) \<Rightarrow> Some (Inl e)
      | Some (Inr st) \<Rightarrow> Some (flushEdges c st))"

text \<open>Every friend edge produced so far: the batches already handed to the store, then
  the pending batch.\<close>

definition all_edges :: "fstate \<Rightarrow> friend_edge list" where
  "all_edges st = concat (submitted st) @ edgeBatch st"

text \<open>The dedup set holds exactly the pair keys of the edges produced, no key occurs
  twice among them, and every edge joins two different users under its canonical key.\<close>

definition dedup_ok :: "fstate \<Rightarrow> bool" where
  "dedup_ok st \<longleftrightarrow>
     friendSet st = pair ` set (all_edges st) \<and> distinct (map pair (all_edges st)) \<and>
     (\<forall>e\<in>set (all_edges st). src e \<noteq> dst e \<and> pair e = pairKey (src e) (dst e))"

text \<open>A population of one: user 1, in no community and no city list.\<close>

definition single_user_world :: world where
  "single_user_world =
     \<lparr>allUserIds = [1], idsByCommunity = Map.empty, idsByCity = Map.empty,
      userCommunityMap = Map.empty, userCityMap = Map.empty\<rparr>"

definition single_user_config :: fconfig where
  "single_user_config =
     \<lparr>fworld = single_user_world, targetDegrees = [1 \<mapsto> 1], targetEdges = 1, retryFactor = 15,
      BATCH_SIZE = 5000, insertEdges = (\<lambda>h b. Inr ())\<rparr>"

text \<open>A population of two in one community and two cities, with an edge budget of 1.\<close>

definition two_user_world :: world where
  "two_user_world = \<lparr>allUserIds = [1, 2], idsByCommunity = [0 \<mapsto> [1, 2]], idsByCity = [''Pune'' \<mapsto> [1], ''Delhi'' \<mapsto> [2]],
      userCommunityMap = [1 \<mapsto> 0, 2 \<mapsto> 0], userCityMap = [1 \<mapsto> ''Pune'', 2 \<mapsto> ''Delhi'']\<rparr>"
definition two_user_config :: fconfig where
  "two_user_config = \<lparr>fworld = two_user_world, targetDegrees = [1 \<mapsto> 1, 2 \<mapsto> 1], targetEdges = 1, retryFactor = 15,
      BATCH_SIZE = 5000, insertEdges = (\<lambda>h b. Inr ())\<rparr>"

section \<open>Edge builder, directed\<close>

text \<open>\<^verbatim>\<open>{ type: 'follow', src: uId, dst: candidate, weight: 1.0 }\<close>; the candidate is what
  \<open>choice\<close> returned, \<open>None\<close> for \<open>undefined\<close>.\<close>

record follow_edge =
  ftype :: string
  fsrc :: nat
  fdst :: "nat option"
  fweight :: rat

record follow_state =
  fseed :: seed
  followSet :: "string set"
  followBatch :: "follow_edge list"
  fsubmitted :: "follow_edge list list"
  fprinted :: "string list"

record follow_config =
  follow_world :: world
  FOLLOW_MIN :: int
  FOLLOW_MAX :: int
  follow_BATCH_SIZE :: nat
  insertFollow :: "follow_edge insertMany"

text \<open>
  \<^verbatim>\<open>function flushFollow(){
    if(followBatch.length){
      try {
        db.edges.insertMany(followBatch, { ordered: false });
      } catch(e){
        print("Follow batch insert warning:", e);
      }
      followBatch = [];
    }
  }\<close>
\<close>

definition flushFollow :: "follow_config \<Rightarrow> follow_state \<Rightarrow> string + follow_state" where
  "flushFollow c st =
     (if followBatch st \<noteq> [] then
        (case try_catch
                (case insertFollow c (fsubmitted st) (followBatch st) of
                   Inl e \<Rightarrow> Inl e
                 | Inr u \<Rightarrow> Inr (st\<lparr>fsubmitted := fsubmitted st @ [followBatch st]\<rparr>))
                (\<lambda>e. Inr (st\<lparr>fsubmitted := fsubmitted st @ [followBatch st],
                              fprinted := fprinted st @ [''Follow batch insert warning: '' @ e]\<rparr>)) of
           Inl e \<Rightarrow> Inl e
         | Inr st1 \<Rightarrow> Inr (st1\<lparr>followBatch := []\<rparr>))
      else Inr st)"

text \<open>
  \<^verbatim>\<open>const r = rand();
  if(r < 0.4){
    candidate = choice(allUserIds);
  } else if(r < 0.8){
    const commList = idsByCommunity[userCommunityMap[uId]];
    candidate = choice(commList);
  } else {
    candidate = choice(allUserIds);
  }\<close>

  \<open>choice(undefined)\<close> throws a \<open>TypeError\<close> at \<open>arr.length\<close>.
\<close>

definition follow_candidate :: "world \<Rightarrow> nat \<Rightarrow> seed \<Rightarrow> string + nat option \<times> seed" where
  "follow_candidate w uId sd =
     (let r = rand sd
      in if below r 2 5 then Inr (choice (allUserIds w) r)
         else if below r 4 5 then
           (case communityList w uId of
              None \<Rightarrow> Inl ''TypeError: Cannot read properties of undefined (reading length)''
            | Some commList \<Rightarrow> Inr (choice commList r))
         else Inr (choice (allUserIds w) r))"

text \<open>\<open>uId + "|" + candidate\<close>: both operands are converted to strings.\<close>

definition js_string :: "nat option \<Rightarrow> string" where
  "js_string v = (case v of None \<Rightarrow> ''undefined'' | Some n \<Rightarrow> toString n)"

definition follow_key :: "nat \<Rightarrow> nat option \<Rightarrow> string" where
  "follow_key uId candidate = toString uId @ ''|'' @ js_string candidate"

text \<open>
  \<^verbatim>\<open>followSet[key] = true;
  followBatch.push({ type: 'follow', src: uId, dst: candidate, weight: 1.0 });
  made++;
  if(followBatch.length >= BATCH_SIZE) flushFollow();\<close>
\<close>

definition push_follow :: "nat \<Rightarrow> nat option \<Rightarrow> follow_state \<Rightarrow> follow_state" where
  "push_follow uId candidate st =
     st\<lparr>followSet := insert (follow_key uId candidate) (followSet st),
        followBatch := followBatch st @ [\<lparr>ftype = ''follow'', fsrc = uId, fdst = candidate, fweight = 1\<rparr>]\<rparr>"

definition accept_follow :: "follow_config \<Rightarrow> nat \<Rightarrow> nat option \<Rightarrow> follow_state \<Rightarrow> string + follow_state" where
  "accept_follow c uId candidate st =
     (if length (followBatch (push_follow uId candidate st)) \<ge> follow_BATCH_SIZE c
      then flushFollow c (push_follow uId candidate st)
      else Inr (push_follow uId candidate st))"

text \<open>
  \<^verbatim>\<open>while(made < nF && tries < nF*8){
    tries++;
    ...
    if(candidate === uId) continue;
    const key = uId + "|" + candidate;
    if(followSet[key]) continue;
    ...
  }\<close>
\<close>

function follow_loop :: "follow_config \<Rightarrow> nat \<Rightarrow> int \<Rightarrow> int \<Rightarrow> int \<Rightarrow> follow_state \<Rightarrow> string + follow_state" where
  "follow_loop c uId nF made tries st =
     (if made < nF \<and> tries < nF * 8 then
        (case follow_candidate (follow_world c) uId (fseed st) of
           Inl e \<Rightarrow> Inl e
         | Inr (candidate, sd) \<Rightarrow>
             (if candidate = Some uId then follow_loop c uId nF made (tries + 1) (st\<lparr>fseed := sd\<rparr>)
              else if follow_key uId candidate \<in> followSet st
                then follow_loop c uId nF made (tries + 1) (st\<lparr>fseed := sd\<rparr>)
              else
                (case accept_follow c uId candidate (st\<lparr>fseed := sd\<rparr>) of
                   Inl e \<Rightarrow> Inl e
                 | Inr st' \<Rightarrow> follow_loop c uId nF (made + 1) (tries + 1) st')))
      else Inr st)"
  by pat_completeness auto
termination
  by (relation "measure (\<lambda>(c, uId, nF, made, tries, st). nat (nF * 8 - tries))") auto

declare follow_loop.simps [simp del]

text \<open>
  \<^verbatim>\<open>for(const uId of allUserIds){
    const nF = randint(FOLLOW_MIN, FOLLOW_MAX);
    let made = 0;
    let tries = 0;
    while(...){ ... }
  }
  flushFollow();\<close>
\<close>

fun follow_users :: "follow_config \<Rightarrow> nat list \<Rightarrow> follow_state \<Rightarrow> string + follow_state" where
  "follow_users c [] st = Inr st"
| "follow_users c (uId # rest) st =
     (let (nF, sd) = randint (FOLLOW_MIN c) (FOLLOW_MAX c) (fseed st)
      in case follow_loop c uId nF 0 0 (st\<lparr>fseed := sd\<rparr>) of
           Inl e \<Rightarrow> Inl e
         | Inr st' \<Rightarrow> follow_users c rest st')"

definition follow_init :: "seed \<Rightarrow> follow_state" where
  "follow_init sd = \<lparr>fseed = sd, followSet = {}, followBatch = [], fsubmitted = [], fprinted = []\<rparr>"

definition follow_edges :: "follow_config \<Rightarrow> seed \<Rightarrow> string + follow_state" where
  "follow_edges c sd =
     (case follow_users c (allUserIds (follow_world c)) (follow_init sd) of
        Inl e \<Rightarrow> Inl e
      | Inr st \<Rightarrow> flushFollow c st)"

definition all_follows :: "follow_state \<Rightarrow> follow_edge list" where
  "all_follows st = concat (fsubmitted st) @ followBatch st"

definition two_follow_config :: follow_config where
  "two_follow_config = \<lparr>follow_world = two_user_world, FOLLOW_MIN = 1, FOLLOW_MAX = 1,
     follow_BATCH_SIZE = 5000, insertFollow = (\<lambda>h b. Inr ())\<rparr>"

section \<open>Population partitioner\<close>

text \<open>
  \<^verbatim>\<open>const communities = [];
  let rem = N_USERS;
  for(let i=0;i<nCommunities;i++){
    const min = Math.floor(N_USERS / (nCommunities*2));
    if(i === nCommunities-1){ communities.push(rem); break; }
    const take = randint(min, Math.max(min, Math.floor(rem/(nCommunities - i))));
    communities.push(take);
    rem -= take;
  }\<close>

  Both divisors are positive where the quotient is used, and \<open>Math.floor\<close> of the quotient of
  two integers is \<open>div\<close>.
\<close>

function community_sizes :: "int \<Rightarrow> int \<Rightarrow> int \<Rightarrow> int \<Rightarrow> int list \<Rightarrow> seed \<Rightarrow> int list \<times> seed" where
  "community_sizes N_USERS nCommunities i rem communities sd =
     (if i < nCommunities then
        (let mn = N_USERS div (nCommunities * 2)
         in if i = nCommunities - 1 then (communities @ [rem], sd)
            else
              (let (take, sd') = randint mn (max mn (rem div (nCommunities - i))) sd
               in community_sizes N_USERS nCommunities (i + 1) (rem - take) (communities @ [take]) sd'))
      else (communities, sd))"
  by pat_completeness auto
termination
  by (relation "measure (\<lambda>(N, C, i, rem, cs, sd). nat (C - i))") auto

declare community_sizes.simps [simp del]

text \<open>\<^verbatim>\<open>const nCommunities = randint(12,22);\<close>, with the range as a parameter.\<close>

definition partition_sizes :: "int \<Rightarrow> int \<Rightarrow> int \<Rightarrow> seed \<Rightarrow> int list \<times> seed" where
  "partition_sizes N_USERS cMin cMax sd =
     (let (nCommunities, sd1) = randint cMin cMax sd
      in community_sizes N_USERS nCommunities 0 N_USERS [] sd1)"

text \<open>
  The part of the user loop that assigns ids and communities:
  \<^verbatim>\<open>for(let created=0; created<N_USERS; ){
    if(assignedToCurrent >= communities[communityIndex]){ communityIndex++; assignedToCurrent = 0; }
    const community = communityIndex;
    assignedToCurrent++;
    const _id = GLOBAL_USER_ID++;
    ...
    const userDoc = { _id, ..., community };
    userBatch.push(userDoc);
    allUserIds.push(_id);
    if(!idsByCommunity[community]) idsByCommunity[community] = [];
    idsByCommunity[community].push(_id);
    ...
    created++;
    ...
  }\<close>

  The statements left out draw the attributes of the user, maintain the city index and
  the degree counters and insert the batch; none of them reads or writes a variable kept
  here. A user document is kept as its \<open>_id\<close> and its \<open>community\<close>. A read of
  \<open>communities[communityIndex]\<close> past the end gives \<open>undefined\<close>, and the comparison is
  then false.
\<close>

record user_doc =
  uid :: nat
  community :: nat

record ustate =
  GLOBAL_USER_ID :: nat
  communityIndex :: nat
  assignedToCurrent :: int
  u_allUserIds :: "nat list"
  u_idsByCommunity :: "nat \<rightharpoonup> nat list"
  userDocs :: "user_doc list"

definition community_full :: "int list \<Rightarrow> ustate \<Rightarrow> bool" where
  "community_full communities st =
     (if communityIndex st < length communities
      then assignedToCurrent st \<ge> communities ! communityIndex st
      else False)"

definition create_user :: "int list \<Rightarrow> ustate \<Rightarrow> ustate" where
  "create_user communities st =
     (let st1 = (if community_full communities st
                 then st\<lparr>communityIndex := communityIndex st + 1, assignedToCurrent := 0\<rparr>
                 else st);
          c = communityIndex st1;
          i = GLOBAL_USER_ID st1
      in st1\<lparr>assignedToCurrent := assignedToCurrent st1 + 1,
             GLOBAL_USER_ID := i + 1,
             userDocs := userDocs st1 @ [\<lparr>uid = i, community = c\<rparr>],
             u_allUserIds := u_allUserIds st1 @ [i],
             u_idsByCommunity := (u_idsByCommunity st1)(c \<mapsto> members (u_idsByCommunity st1 c) @ [i])\<rparr>)"

function create_users :: "int list \<Rightarrow> int \<Rightarrow> int \<Rightarrow> ustate \<Rightarrow> ustate" where
  "create_users communities N_USERS created st =
     (if created < N_USERS
      then create_users communities N_USERS (created + 1) (create_user communities st)
      else st)"
  by pat_completeness auto
termination
  by (relation "measure (\<lambda>(cs, N, created, st). nat (N - created))") auto

declare create_users.simps [simp del]

definition users_init :: ustate where
  "users_init =
     \<lparr>GLOBAL_USER_ID = 1, communityIndex = 0, assignedToCurrent = 0, u_allUserIds = [],
      u_idsByCommunity = Map.empty, userDocs = []\<rparr>"

section \<open>Interaction emitter\<close>

text \<open>
  \<^verbatim>\<open>{ actor, target, type: t, weight: w, createdAt: new Date() }\<close>

  \<open>actor\<close>, \<open>target\<close> and \<open>t\<close> are what \<open>choice\<close> returned (\<open>None\<close> for \<open>undefined\<close>);
  \<open>createdAt\<close> is the time of the wall clock, in milliseconds.
\<close>

record interaction =
  actor :: "nat option"
  target :: "nat option"
  itype :: "string option"
  iweight :: rat
  createdAt :: int

record istate =
  iseed :: seed
  interactionsBatch :: "interaction list"
  isubmitted :: "interaction list list"
  iprinted :: "string list"
  clockReads :: nat

record iconfig =
  i_allUserIds :: "nat list"
  N_INTERACTIONS :: int
  i_BATCH_SIZE :: nat
  insertInteractions :: "interaction insertMany"

definition interactionTypes :: "string list" where
  "interactionTypes = [''message'', ''like'', ''comment'', ''view'']"

text \<open>\<^verbatim>\<open>const w = t === 'message' ? 2.0 : t === 'comment' ? 1.5 : t === 'like' ? 1.0 : 0.5;\<close>\<close>

definition weight_of :: "string option \<Rightarrow> rat" where
  "weight_of t =
     (if t = Some ''message'' then 2
      else if t = Some ''comment'' then 3 / 2
      else if t = Some ''like'' then 1
      else 1 / 2)"

text \<open>
  \<^verbatim>\<open>function flushInteractions(){
    if(interactionsBatch.length){
      try {
        db.interactions.insertMany(interactionsBatch, { ordered: false });
      } catch(e){
        print("Interactions batch insert warning:", e);
      }
      interactionsBatch = [];
    }
  }\<close>
\<close>

definition flushInteractions :: "iconfig \<Rightarrow> istate \<Rightarrow> string + istate" where
  "flushInteractions c st =
     (if interactionsBatch st \<noteq> [] then
        (case try_catch
                (case insertInteractions c (isubmitted st) (interactionsBatch st) of
                   Inl e \<Rightarrow> Inl e
                 | Inr u \<Rightarrow> Inr (st\<lparr>isubmitted := isubmitted st @ [interactionsBatch st]\<rparr>))
                (\<lambda>e. Inr (st\<lparr>isubmitted := isubmitted st @ [interactionsBatch st],
                              iprinted := iprinted st @ [''Interactions batch insert warning: '' @ e]\<rparr>)) of
           Inl e \<Rightarrow> Inl e
         | Inr st1 \<Rightarrow> Inr (st1\<lparr>interactionsBatch := []\<rparr>))
      else Inr st)"

text \<open>
  The wall clock is the one input of the run that is not in the script: \<open>clock k\<close> is the
  time returned by the \<open>k\<close>-th evaluation of \<open>new Date()\<close>, counted from 0.

  \<^verbatim>\<open>const t = choice(interactionTypes);
  const w = ...;
  interactionsBatch.push({ actor, target, type: t, weight: w, createdAt: new Date() });
  if(interactionsBatch.length >= BATCH_SIZE) flushInteractions();\<close>
\<close>

definition emit_interaction :: "(nat \<Rightarrow> int) \<Rightarrow> iconfig \<Rightarrow> nat option \<Rightarrow> nat option \<Rightarrow> istate \<Rightarrow> string + istate" where
  "emit_interaction clock c a b st =
     (let (t, sd) = choice interactionTypes (iseed st);
          st1 = st\<lparr>iseed := sd,
                   interactionsBatch := interactionsBatch st @
                     [\<lparr>actor = a, target = b, itype = t, iweight = weight_of t,
                       createdAt = clock (clockReads st)\<rparr>],
                   clockReads := clockReads st + 1\<rparr>
      in if length (interactionsBatch st1) \<ge> i_BATCH_SIZE c then flushInteractions c st1 else Inr st1)"

text \<open>
  \<^verbatim>\<open>for(let i=0;i<N_INTERACTIONS;i++){
    const actor = choice(allUserIds);
    const target = choice(allUserIds);
    if(actor === target) continue;
    ...
  }
  flushInteractions();\<close>
\<close>

function interactions_loop :: "(nat \<Rightarrow> int) \<Rightarrow> iconfig \<Rightarrow> int \<Rightarrow> istate \<Rightarrow> string + istate" where
  "interactions_loop clock c i st =
     (if i < N_INTERACTIONS c then
        (let (a, sd1) = choice (i_allUserIds c) (iseed st);
             (b, sd2) = choice (i_allUserIds c) sd1
         in if a = b then interactions_loop clock c (i + 1) (st\<lparr>iseed := sd2\<rparr>)
            else
              (case emit_interaction clock c a b (st\<lparr>iseed := sd2\<rparr>) of
                 Inl e \<Rightarrow> Inl e
               | Inr st' \<Rightarrow> interactions_loop clock c (i + 1) st'))
      else Inr st)"
  by pat_completeness auto
termination
  by (relation "measure (\<lambda>(clock, c, i, st). nat (N_INTERACTIONS c - i))") auto

declare interactions_loop.simps [simp del]

definition interactions_init :: "seed \<Rightarrow> istate" where
  "interactions_init sd =
     \<lparr>iseed = sd, interactionsBatch = [], isubmitted = [], iprinted = [], clockReads = 0\<rparr>"

definition interactions :: "(nat \<Rightarrow> int) \<Rightarrow> iconfig \<Rightarrow> seed \<Rightarrow> string + istate" where
  "interactions clock c sd =
     (case interactions_loop clock c 0 (interactions_init sd) of
        Inl e \<Rightarrow> Inl e
      | Inr st \<Rightarrow> flushInteractions c st)"


definition two_user_interactions :: iconfig where
  "two_user_interactions =
     \<lparr>i_allUserIds = [1, 2], N_INTERACTIONS = 3, i_BATCH_SIZE = 5000,
      insertInteractions = (\<lambda>h b. Inr ())\<rparr>"

section \<open>The phases in sequence\<close>



section \<open>User batches\<close>

text \<open>
  The end of the body of the user loop:
  \<^verbatim>\<open>if(userBatch.length >= BATCH_SIZE || created === N_USERS){
    // insert batch
    try {
      db.users.insertMany(userBatch, { ordered: false });
    } catch(e){
      print("Warning: insertMany users batch error (continuing).", e);
    }
    print("Inserted users so far: " + db.users.countDocuments());
    userBatch = [];
  }\<close>

  \<open>db.users.countDocuments()\<close> is a second call to the store, outside the \<open>try\<close>; like
  \<open>insertMany\<close> it is a parameter that either throws or returns, here a count.
\<close>

record usink =
  userBatch :: "user_doc list"
  usubmitted :: "user_doc list list"
  uprinted :: "string list"

definition flushUsers :: "user_doc insertMany \<Rightarrow> (user_doc list list \<Rightarrow> string + nat) \<Rightarrow> usink \<Rightarrow> string + usink" where
  "flushUsers insertUsers countDocuments k =
     (case try_catch
             (case insertUsers (usubmitted k) (userBatch k) of
                Inl e \<Rightarrow> Inl e
              | Inr u \<Rightarrow> Inr (k\<lparr>usubmitted := usubmitted k @ [userBatch k]\<rparr>))
             (\<lambda>e. Inr (k\<lparr>usubmitted := usubmitted k @ [userBatch k],
                          uprinted := uprinted k @ [''Warning: insertMany users batch error (continuing). '' @ e]\<rparr>)) of
        Inl e \<Rightarrow> Inl e
      | Inr k1 \<Rightarrow>
          (case countDocuments (usubmitted k1) of
             Inl e \<Rightarrow> Inl e
           | Inr n \<Rightarrow>
               Inr (k1\<lparr>uprinted := uprinted k1 @ [''Inserted users so far: '' @ toString n],
                       userBatch := []\<rparr>)))"

definition store_user :: "user_doc insertMany \<Rightarrow> (user_doc list list \<Rightarrow> string + nat) \<Rightarrow> nat \<Rightarrow> int \<Rightarrow> int
    \<Rightarrow> user_doc \<Rightarrow> usink \<Rightarrow> string + usink" where
  "store_user insertUsers countDocuments batchSize N_USERS created userDoc k =
     (let k1 = k\<lparr>userBatch := userBatch k @ [userDoc]\<rparr>
      in if length (userBatch k1) \<ge> batchSize \<or> created = N_USERS
         then flushUsers insertUsers countDocuments k1
         else Inr k1)"




section \<open>Invariants of the phases\<close>

text \<open>The invariant of the follow phase: the key set is the set of keys of the edges accepted so far, no ordered pair repeats, and no edge is a loop.\<close>

definition follow_ok :: "follow_state \<Rightarrow> bool" where
  "follow_ok st \<longleftrightarrow>
     followSet st = (\<lambda>e. follow_key (fsrc e) (fdst e)) ` set (all_follows st) \<and>
     distinct (map (\<lambda>e. (fsrc e, fdst e)) (all_follows st)) \<and>
     (\<forall>e\<in>set (all_follows st). fdst e \<noteq> Some (fsrc e))"

text \<open>The invariant of the user loop: the ids created so far are distinct and below the counter, and each is a member of exactly one community list, the one its document names.\<close>

definition assigned_once :: "ustate \<Rightarrow> bool" where
  "assigned_once st \<longleftrightarrow>
     distinct (u_allUserIds st) \<and>
     (\<forall>i\<in>set (u_allUserIds st). i < GLOBAL_USER_ID st) \<and>
     (\<forall>c. set (members (u_idsByCommunity st c)) \<subseteq> set (u_allUserIds st)) \<and>
     (\<forall>i\<in>set (u_allUserIds st). \<exists>!c. i \<in> set (members (u_idsByCommunity st c))) \<and>
     map uid (userDocs st) = u_allUserIds st \<and>
     (\<forall>d\<in>set (userDocs st). uid d \<in> set (members (u_idsByCommunity st (community d))))"


section \<open>Properties of the degree planner\<close>

lemma num_upd: "num (t(i \<mapsto> v)) j = (if j = i then v else num t j)"
  by (simp add: num_def)

lemma sum_targets_upd:
  assumes "distinct ids" "i \<in> set ids"
  shows "sum_targets ids (t(i \<mapsto> v)) = sum_targets ids t - num t i + v"
proof -
  have "sum_targets ids (t(i \<mapsto> v)) = sum (num (t(i \<mapsto> v))) (set ids)"
    using assms by (simp add: sum_targets_def sum_list_distinct_conv_sum_set)
  also have "\<dots> = num (t(i \<mapsto> v)) i + sum (num (t(i \<mapsto> v))) (set ids - {i})"
    using assms by (simp add: sum.remove)
  also have "sum (num (t(i \<mapsto> v))) (set ids - {i}) = sum (num t) (set ids - {i})"
    by (rule sum.cong) (auto simp: num_upd)
  also have "num (t(i \<mapsto> v)) i = v" by (simp add: num_upd)
  finally have "sum_targets ids (t(i \<mapsto> v)) = v + sum (num t) (set ids - {i})" .
  moreover have "sum_targets ids t = num t i + sum (num t) (set ids - {i})"
    using assms by (simp add: sum_targets_def sum_list_distinct_conv_sum_set sum.remove)
  ultimately show ?thesis by simp
qed

lemma nth_mod_mem: "0 < length ids \<Longrightarrow> ids ! (k mod length ids) \<in> set ids"
  by simp

lemma distribute_total:
  assumes "distinct ids" "0 < length ids" "0 \<le> r"
  shows "\<exists>t'. distribute ids t r idx = (t', 0) \<and> sum_targets ids t' = sum_targets ids t + r
          \<and> (\<forall>i. num t i \<le> num t' i)"
  using assms
proof (induction ids t r idx rule: distribute.induct)
  case (1 ids t r idx)
  show ?case
  proof (cases "r > 0")
    case False
    with 1 have "r = 0" by simp
    then show ?thesis by (subst distribute.simps) simp
  next
    case True
    define i where "i = ids ! (idx mod length ids)"
    have mem: "i \<in> set ids" using 1(3) by (simp add: i_def)
    have "\<exists>t'. distribute ids (t(i \<mapsto> num t i + 1)) (r - 1) (idx + 1) = (t', 0)
        \<and> sum_targets ids t' = sum_targets ids (t(i \<mapsto> num t i + 1)) + (r - 1)
        \<and> (\<forall>j. num (t(i \<mapsto> num t i + 1)) j \<le> num t' j)"
      by (rule 1(1)[OF _ i_def]) (use 1(2,3) True in auto)
    then obtain t' where t': "distribute ids (t(i \<mapsto> num t i + 1)) (r - 1) (idx + 1) = (t', 0)"
       "sum_targets ids t' = sum_targets ids (t(i \<mapsto> num t i + 1)) + (r - 1)"
       "\<forall>j. num (t(i \<mapsto> num t i + 1)) j \<le> num t' j" by blast
    have eq: "distribute ids t r idx = (t', 0)"
      using True 1(3) t'(1) by (subst distribute.simps) (simp add: i_def Let_def)
    have s: "sum_targets ids t' = sum_targets ids t + r"
      using t'(2) sum_targets_upd[OF 1(2) mem] by simp
    have m: "\<forall>j. num t j \<le> num t' j"
    proof
      fix j
      have "num t j \<le> num (t(i \<mapsto> num t i + 1)) j" by (simp add: num_upd)
      with t'(3) show "num t j \<le> num t' j" using order_trans by blast
    qed
    show ?thesis using eq s m by blast
  qed
qed

lemma trim_skip:
  assumes "0 < length ids" "r < 0" "num t (ids ! ((idx + k) mod length ids)) > 1"
  shows "\<exists>j\<le>k. num t (ids ! ((idx + j) mod length ids)) > 1 \<and>
           trim ids t r idx =
           trim ids (t(ids ! ((idx + j) mod length ids) \<mapsto> num t (ids ! ((idx + j) mod length ids)) - 1))
                (r + 1) (idx + j + 1)"
  using assms
proof (induction k arbitrary: idx)
  case 0
  then show ?case by (subst trim.simps) (simp add: Let_def)
next
  case (Suc k)
  show ?case
  proof (cases "num t (ids ! (idx mod length ids)) > 1")
    case True
    have "trim ids t r idx =
           trim ids (t(ids ! ((idx + 0) mod length ids) \<mapsto> num t (ids ! ((idx + 0) mod length ids)) - 1))
                (r + 1) (idx + 0 + 1)"
      using True Suc.prems(1,2) by (subst trim.simps) (simp add: Let_def)
    with True show ?thesis by (intro exI[of _ 0]) (simp del: fun_upd_apply)
  next
    case False
    have step: "trim ids t r idx = trim ids t r (idx + 1)"
      using False Suc.prems(1,2) by (subst trim.simps) (simp add: Let_def)
    have "num t (ids ! ((idx + 1 + k) mod length ids)) > 1" using Suc.prems(3) by simp
    from Suc.IH[OF Suc.prems(1,2) this]
    obtain j where j: "j \<le> k" "num t (ids ! ((idx + 1 + j) mod length ids)) > 1"
      "trim ids t r (idx + 1) =
           trim ids (t(ids ! ((idx + 1 + j) mod length ids) \<mapsto> num t (ids ! ((idx + 1 + j) mod length ids)) - 1))
                (r + 1) (idx + 1 + j + 1)" by blast
    show ?thesis
      using j step by (intro exI[of _ "Suc j"]) (simp del: fun_upd_apply)
  qed
qed

lemma reach_index:
  assumes "p < (n::nat)"
  shows "(idx + (p + (n - 1) * idx)) mod n = p"
proof -
  from assms obtain n' where n: "n = Suc n'" by (cases n) auto
  have "idx + (p + (n - 1) * idx) = p + n * idx"
    by (simp add: n)
  then have "(idx + (p + (n - 1) * idx)) mod n = (p + n * idx) mod n" by (rule arg_cong)
  then show ?thesis using assms by (simp del: One_nat_def)
qed

lemma sum_targets_all_one:
  assumes "\<forall>i\<in>set ids. 1 \<le> num t i" "\<forall>i\<in>set ids. \<not> 1 < num t i"
  shows "sum_targets ids t = int (length ids)"
proof -
  have "num t x = 1" if "x \<in> set ids" for x
    using assms(1)[rule_format, OF that] assms(2)[rule_format, OF that] by linarith
  then have "map (num t) ids = map (\<lambda>_. 1) ids" by (intro map_cong) auto
  then show ?thesis by (simp add: sum_targets_def sum_list_triv del: map_eq_conv)
qed

lemma sum_targets_ge:
  assumes "\<forall>i\<in>set ids. 1 \<le> num t i"
  shows "int (length ids) \<le> sum_targets ids t"
proof -
  have "sum_list (map (\<lambda>_. 1::int) ids) \<le> sum_list (map (num t) ids)"
    using assms by (intro sum_list_mono) auto
  then show ?thesis by (simp add: sum_targets_def sum_list_triv)
qed

lemma exists_big:
  assumes "\<forall>i\<in>set ids. 1 \<le> num t i" "int (length ids) < sum_targets ids t"
  shows "\<exists>p<length ids. 1 < num t (ids ! p)"
proof (rule ccontr)
  assume "\<not> ?thesis"
  then have "\<forall>i\<in>set ids. \<not> 1 < num t i" by (auto simp: in_set_conv_nth)
  from sum_targets_all_one[OF assms(1) this] assms(2) show False by simp
qed

lemma trim_total:
  assumes "distinct ids" "0 < length ids" "\<forall>i\<in>set ids. 1 \<le> num t i" "r \<le> 0"
    "int (length ids) - r \<le> sum_targets ids t"
  shows "\<exists>t'. trim ids t r idx = Some (t', 0) \<and> sum_targets ids t' = sum_targets ids t + r
          \<and> (\<forall>i\<in>set ids. 1 \<le> num t' i)"
  using assms
proof (induction "nat (- r)" arbitrary: r t idx)
  case 0
  then have "r = 0" by simp
  with 0 show ?case by (subst trim.simps) simp
next
  case (Suc m)
  then have rneg: "r < 0" by simp
  with Suc.prems have "int (length ids) < sum_targets ids t" by simp
  from exists_big[OF Suc.prems(3) this] obtain p where p: "p < length ids" "1 < num t (ids ! p)"
    by blast
  have "num t (ids ! ((idx + (p + (length ids - 1) * idx)) mod length ids)) > 1"
    using p reach_index[OF p(1), of idx] by (simp del: One_nat_def)
  from trim_skip[OF Suc.prems(2) rneg this]
  obtain j where j: "num t (ids ! ((idx + j) mod length ids)) > 1"
     "trim ids t r idx =
           trim ids (t(ids ! ((idx + j) mod length ids) \<mapsto> num t (ids ! ((idx + j) mod length ids)) - 1))
                (r + 1) (idx + j + 1)" by blast
  define i where "i = ids ! ((idx + j) mod length ids)"
  define t1 where "t1 = t(i \<mapsto> num t i - 1)"
  have mem: "i \<in> set ids" using Suc.prems(2) by (simp add: i_def)
  have s1: "sum_targets ids t1 = sum_targets ids t - 1"
    using sum_targets_upd[OF Suc.prems(1) mem, of t "num t i - 1"] by (simp add: t1_def)
  have ge1: "\<forall>k\<in>set ids. 1 \<le> num t1 k"
    using Suc.prems(3) j(1) by (auto simp: t1_def num_upd i_def)
  have m: "m = nat (- (r + 1))" using Suc(2) by simp
  have "\<exists>t'. trim ids t1 (r + 1) (idx + j + 1) = Some (t', 0)
       \<and> sum_targets ids t' = sum_targets ids t1 + (r + 1) \<and> (\<forall>i\<in>set ids. 1 \<le> num t' i)"
    by (rule Suc(1)[OF m Suc.prems(1,2) ge1]) (use rneg Suc.prems(5) s1 in auto)
  then show ?case using j(2) s1 by (auto simp: t1_def i_def)
qed

lemma trim_diverges:
  assumes "0 < length ids" "\<forall>i\<in>set ids. 1 \<le> num t i" "sum_targets ids t < int (length ids) - r"
    "distinct ids"
  shows "trim ids t r idx = None"
proof (rule ccontr)
  assume "trim ids t r idx \<noteq> None"
  then obtain y where y: "trim ids t r idx = Some y" by blast
  have "\<not> (0 < length ids \<and> (\<forall>i\<in>set ids. 1 \<le> num t i) \<and> sum_targets ids t < int (length ids) - r \<and> distinct ids)"
  proof (rule trim.raw_induct[where P = "\<lambda>ids t r idx y. \<not> (0 < length ids \<and> (\<forall>i\<in>set ids. 1 \<le> num t i) \<and> sum_targets ids t < int (length ids) - r \<and> distinct ids)", OF _ y])
    fix trim' ids t r idx y
    assume 1: "\<And>ids t r idx y. trim' ids t r idx = Some y \<Longrightarrow>
        \<not> (0 < length ids \<and> (\<forall>i\<in>set ids. 1 \<le> num t i) \<and> sum_targets ids t < int (length ids) - r \<and> distinct ids)"
      "(if r < 0 \<and> 0 < length ids
      then let i = ids ! (idx mod length ids)
           in if 1 < num t i
              then trim' ids (t(i \<mapsto> num t i - 1)) (r + 1) (idx + 1)
              else trim' ids t r (idx + 1)
      else Some (t, r)) = Some y"
    show "\<not> (0 < length ids \<and> (\<forall>i\<in>set ids. 1 \<le> num t i) \<and> sum_targets ids t < int (length ids) - r \<and> distinct ids)"
    proof
      assume inv: "0 < length ids \<and> (\<forall>i\<in>set ids. 1 \<le> num t i) \<and> sum_targets ids t < int (length ids) - r \<and> distinct ids"
      then have "int (length ids) \<le> sum_targets ids t" using sum_targets_ge by blast
      with inv have rneg: "r < 0" by simp
      define i where "i = ids ! (idx mod length ids)"
      have mem: "i \<in> set ids" using inv by (simp add: i_def)
      show False
      proof (cases "num t i > 1")
        case True
        have call: "trim' ids (t(i \<mapsto> num t i - 1)) (r + 1) (idx + 1) = Some y"
          using 1(2) True rneg inv by (simp add: Let_def i_def)
        have "sum_targets ids (t(i \<mapsto> num t i - 1)) = sum_targets ids t - 1"
          using sum_targets_upd[of ids i t "num t i - 1"] inv mem by simp
        moreover have "\<forall>k\<in>set ids. 1 \<le> num (t(i \<mapsto> num t i - 1)) k"
          using inv True by (auto simp: num_upd)
        ultimately show False using 1(1)[OF call] inv by simp
      next
        case False
        have call: "trim' ids t r (idx + 1) = Some y"
          using 1(2) False rneg inv by (simp add: Let_def i_def)
        show False using 1(1)[OF call] inv by simp
      qed
    qed
  qed
  with assms show False by simp
qed

lemma scale_pass_spec:
  "\<exists>t'. scale_pass f bd ids (t, sa) = (t', sa + sum_list (map (\<lambda>i. max 1 (f (num bd i))) ids))
      \<and> (\<forall>i. num t' i = (if i \<in> set ids then max 1 (f (num bd i)) else num t i))"
proof (induction ids arbitrary: t sa)
  case Nil
  then show ?case by simp
next
  case (Cons a ids)
  obtain t' where t': "scale_pass f bd ids (t(a \<mapsto> max 1 (f (num bd a))), sa + max 1 (f (num bd a)))
      = (t', sa + max 1 (f (num bd a)) + sum_list (map (\<lambda>i. max 1 (f (num bd i))) ids))"
    "\<forall>i. num t' i = (if i \<in> set ids then max 1 (f (num bd i)) else num (t(a \<mapsto> max 1 (f (num bd a)))) i)"
    using Cons.IH by blast
  have "scale_pass f bd (a # ids) (t, sa) = (t', sa + sum_list (map (\<lambda>i. max 1 (f (num bd i))) (a # ids)))"
    using t'(1) by (simp add: Let_def add.assoc)
  moreover have "\<forall>i. num t' i = (if i \<in> set (a # ids) then max 1 (f (num bd i)) else num t i)"
    using t'(2) by (simp add: num_upd)
  ultimately show ?case by blast
qed

lemma scale_pass_init:
  obtains t where "scale_pass f bd ids (Map.empty, 0) = (t, sum_targets ids t)"
    "\<forall>i\<in>set ids. 1 \<le> num t i"
proof -
  obtain t where t: "scale_pass f bd ids (Map.empty, 0) = (t, 0 + sum_list (map (\<lambda>i. max 1 (f (num bd i))) ids))"
    "\<forall>i. num t i = (if i \<in> set ids then max 1 (f (num bd i)) else num Map.empty i)"
    using scale_pass_spec[of f bd ids Map.empty 0] by blast
  have "map (num t) ids = map (\<lambda>i. max 1 (f (num bd i))) ids"
    using t(2) by (intro map_cong) auto
  then have "sum_targets ids t = sum_list (map (\<lambda>i. max 1 (f (num bd i))) ids)"
    by (simp add: sum_targets_def del: map_eq_conv)
  moreover have "\<forall>i\<in>set ids. 1 \<le> num t i" using t(2) by simp
  ultimately show ?thesis using that t(1) by simp
qed

lemma plan_degrees_post:
  assumes "ids \<noteq> []" "distinct ids" "int (length ids) \<le> 2 * E"
  shows "\<exists>tds s. plan_degrees fl E avg var ids s1 = Some (tds, s)
           \<and> sum_targets ids tds = 2 * E
           \<and> (\<forall>i\<in>set ids. 1 \<le> num tds i)"
proof -
  obtain bd sb s2 where bp: "base_pass avg var ids (Map.empty, 0, s1) = (bd, sb, s2)"
    by (cases "base_pass avg var ids (Map.empty, 0, s1)") auto
  define S where "S = E * 2"
  obtain t where t: "scale_pass (scaled fl S sb) bd ids (Map.empty, 0) = (t, sum_targets ids t)"
    "\<forall>i\<in>set ids. 1 \<le> num t i"
    by (rule scale_pass_init)
  have len: "0 < length ids" using assms(1) by simp
  show ?thesis
  proof (cases "0 \<le> S - sum_targets ids t")
    case True
    obtain t' where t': "distribute ids t (S - sum_targets ids t) 0 = (t', 0)"
      "sum_targets ids t' = sum_targets ids t + (S - sum_targets ids t)"
      "\<forall>i. num t i \<le> num t' i"
      using distribute_total[OF assms(2) len True] by blast
    have "plan_degrees fl E avg var ids s1 = Some (t', s2)"
      by (simp add: plan_degrees_def bp S_def[symmetric] t(1) t'(1))
    moreover have "sum_targets ids t' = 2 * E" using t'(2) by (simp add: S_def)
    moreover have "\<forall>i\<in>set ids. 1 \<le> num t' i"
      using t(2) t'(3) order_trans by blast
    ultimately show ?thesis by blast
  next
    case False
    then have neg: "S - sum_targets ids t < 0" by simp
    have d: "distribute ids t (S - sum_targets ids t) 0 = (t, S - sum_targets ids t)"
      using neg by (subst distribute.simps) simp
    have "int (length ids) - (S - sum_targets ids t) \<le> sum_targets ids t"
      using assms(3) by (simp add: S_def)
    from trim_total[OF assms(2) len t(2) _ this, of 0] neg
    obtain t' where t': "trim ids t (S - sum_targets ids t) 0 = Some (t', 0)"
      "sum_targets ids t' = sum_targets ids t + (S - sum_targets ids t)"
      "\<forall>i\<in>set ids. 1 \<le> num t' i" by auto
    have "plan_degrees fl E avg var ids s1 = Some (t', s2)"
      using neg by (simp add: plan_degrees_def bp S_def[symmetric] t(1) d t'(1))
    moreover have "sum_targets ids t' = 2 * E" using t'(2) by (simp add: S_def)
    ultimately show ?thesis using t'(3) by blast
  qed
qed

lemma plan_degrees_diverges:
  assumes "distinct ids" "2 * E < int (length ids)" "ids \<noteq> []"
  shows "plan_degrees fl E avg var ids s1 = None"
proof -
  obtain bd sb s2 where bp: "base_pass avg var ids (Map.empty, 0, s1) = (bd, sb, s2)"
    by (cases "base_pass avg var ids (Map.empty, 0, s1)") auto
  define S where "S = E * 2"
  obtain t where t: "scale_pass (scaled fl S sb) bd ids (Map.empty, 0) = (t, sum_targets ids t)"
    "\<forall>i\<in>set ids. 1 \<le> num t i"
    by (rule scale_pass_init)
  have ge: "int (length ids) \<le> sum_targets ids t" by (rule sum_targets_ge[OF t(2)])
  then have neg: "S - sum_targets ids t < 0" using assms(2) by (simp add: S_def)
  have len: "0 < length ids" using assms(3) by simp
  have d: "distribute ids t (S - sum_targets ids t) 0 = (t, S - sum_targets ids t)"
    using neg by (subst distribute.simps) simp
  have "sum_targets ids t < int (length ids) - (S - sum_targets ids t)"
    using assms(2) by (simp add: S_def)
  from trim_diverges[OF len t(2) this assms(1)]
  have "trim ids t (S - sum_targets ids t) 0 = None" .
  then show ?thesis using neg by (simp add: plan_degrees_def bp S_def[symmetric] t(1) d)
qed

lemma rand_lt: "rand s < 4294967296"
  by (simp add: rand_def)

lemma div_2_32_bound:
  assumes "x < 4294967296 * n" "0 \<le> x" "0 < n"
  shows "0 \<le> x div 4294967296 \<and> x div 4294967296 < (n::int)"
proof -
  have "4294967296 * (x div 4294967296) \<le> x"
    using div_mult_mod_eq[of x 4294967296] pos_mod_sign[of 4294967296 x] by simp
  with assms(1) have "4294967296 * (x div 4294967296) < 4294967296 * n" by simp
  then have "x div 4294967296 < n" by simp
  moreover have "0 \<le> x div 4294967296" using assms(2) by (simp add: pos_imp_zdiv_nonneg_iff)
  ultimately show ?thesis by simp
qed

lemma floor_mul_range: "0 < n \<Longrightarrow> 0 \<le> floor_mul (rand s) n \<and> floor_mul (rand s) n < n"
proof -
  assume n: "0 < n"
  define x where "x = int (rand s) * n"
  have "int (rand s) < 4294967296" using rand_lt[of s] by simp
  then have "x < 4294967296 * n" using n by (simp add: x_def)
  moreover have "0 \<le> x" using n by (simp add: x_def)
  ultimately have "0 \<le> x div 4294967296 \<and> x div 4294967296 < n" using n by (intro div_2_32_bound)
  then show ?thesis by (simp add: floor_mul_def x_def)
qed

lemma randint_range: "a \<le> b \<Longrightarrow> a \<le> fst (randint a b s) \<and> fst (randint a b s) \<le> b"
  using floor_mul_range[of "b - a + 1" s] by (simp add: randint_def Let_def)


text \<open>
  Claim C10. For a non-empty population without repeated ids and a chosen edge budget
  \<open>E\<close> whose stub budget \<open>2 * E\<close> is at least the population size,
  both correction loops of the planner exit: the planner returns target degrees. (By
  \<open>plan_degrees_post\<close> the returned targets then sum to the stub budget and are all at
  least 1.)
\<close>

theorem degree_planner_total:
  assumes "ids \<noteq> []" "distinct ids" "int (length ids) \<le> 2 * E"
  shows "\<exists>tds s. plan_degrees fl E avg var ids s1 = Some (tds, s)"
  using plan_degrees_post[OF assms] by blast

theorem degree_planner_total_witness:
  "[1, 2, 3::nat] \<noteq> [] \<and> distinct [1, 2, 3::nat] \<and> int (length [1, 2, 3::nat]) \<le> 2 * 2 \<and>
   (\<exists>tds s. plan_degrees exact_floor 2 10 6 [1, 2, 3] 1234567 = Some (tds, s))"
  using degree_planner_total[of "[1, 2, 3]" 2 exact_floor 10 6 1234567] by simp


text \<open>
  Claim C1. With 30 users and an edge budget of 5 (stub budget 10) every first-pass target
  is clamped to 1 or more, the sum exceeds the budget, and the trimming loop finds no
  target above 1 to decrement: it never exits, so the planner returns nothing, for
  this and (by \<open>plan_degrees_diverges\<close>) every population larger than the stub budget.
\<close>

theorem degree_planner_never_returns:
  "degree_planner exact_floor 5 5 10 6 [1..<31] 1234567 = None"
proof -
  have "fst (randint 5 5 1234567) = 5" using randint_range[of 5 5 1234567] by simp
  then obtain s1 where r: "randint 5 5 1234567 = (5, s1)" by (cases "randint 5 5 1234567") auto
  have "plan_degrees exact_floor 5 10 6 [1..<31] s1 = None"
    by (rule plan_degrees_diverges) simp_all
  then show ?thesis by (simp add: degree_planner_def r)
qed

section \<open>The generator visits every seed\<close>

text \<open>
  The multiplier 1664525 is 1 modulo 4 and the increment 1013904223 is odd, so the
  recurrence modulo \<open>2^32\<close> has full period: from any seed, every value below \<open>2^32\<close>
  is reached. This is what makes the rejection loop of \<open>sample\<close> exit.
\<close>

lemma geo_odd:
  fixes a :: int
  assumes "odd a"
  shows "odd (\<Sum>i<d. a ^ i) \<longleftrightarrow> odd d"
  using assms by (induction d) auto

lemma geo_double:
  fixes a :: int
  assumes "a \<noteq> 1"
  shows "(\<Sum>i<2 * e. a ^ i) = (\<Sum>i<e. a ^ i) * (a ^ e + 1)"
proof -
  have "(a - 1) * (\<Sum>i<2 * e. a ^ i) = a ^ (2 * e) - 1" by (simp add: power_diff_1_eq)
  also have "\<dots> = (a ^ e - 1) * (a ^ e + 1)" by (simp add: power_mult power2_eq_square algebra_simps)
  also have "a ^ e - 1 = (a - 1) * (\<Sum>i<e. a ^ i)" by (simp add: power_diff_1_eq)
  finally have "(a - 1) * (\<Sum>i<2 * e. a ^ i) = (a - 1) * ((\<Sum>i<e. a ^ i) * (a ^ e + 1))"
    by (simp add: mult.assoc)
  then show ?thesis using assms by simp
qed

lemma pow_mod4:
  fixes a :: int
  assumes "a mod 4 = 1"
  shows "a ^ e mod 4 = 1"
proof -
  have "a ^ e mod 4 = (a mod 4) ^ e mod 4" by (simp add: power_mod)
  then show ?thesis using assms by simp
qed

lemma odd_coprime_pow2:
  fixes b :: int
  assumes "odd b"
  shows "coprime (2 ^ n) b"
  using assms by (cases "n = 0") simp_all

lemma geo_two_adic:
  fixes a :: int
  assumes "a mod 4 = 1" "a \<noteq> 1"
  shows "(2::int) ^ n dvd (\<Sum>i<d. a ^ i) \<longleftrightarrow> 2 ^ n dvd int d"
proof (induction n arbitrary: d)
  case 0
  then show ?case by simp
next
  case (Suc n)
  have odda: "odd a" using assms(1) by presburger
  show ?case
  proof (cases "even d")
    case False
    then have "odd (\<Sum>i<d. a ^ i)" using geo_odd[OF odda] by simp
    then have "\<not> 2 ^ Suc n dvd (\<Sum>i<d. a ^ i)"
      by (metis dvd_trans dvd_triv_left power_Suc)
    moreover have "\<not> (2::int) ^ Suc n dvd int d"
      using False by (metis dvd_trans dvd_triv_left power_Suc even_of_nat)
    ultimately show ?thesis by simp
  next
    case True
    then obtain e where e: "d = 2 * e" by (auto elim: evenE)
    define z where "z = a ^ e"
    have "z mod 4 = 1" using pow_mod4[OF assms(1), of e] by (simp add: z_def)
    then have "z + 1 = 2 * ((z + 1) div 2) \<and> odd ((z + 1) div 2)" by presburger
    then obtain u where u: "a ^ e + 1 = 2 * u" "odd u" unfolding z_def by blast
    have cop: "coprime ((2::int) ^ n) u" using u(2) by (rule odd_coprime_pow2)
    have "(\<Sum>i<d. a ^ i) = 2 * ((\<Sum>i<e. a ^ i) * u)"
      unfolding e geo_double[OF assms(2)] u(1) by simp
    then have "(2::int) ^ Suc n dvd (\<Sum>i<d. a ^ i) \<longleftrightarrow> 2 * 2 ^ n dvd 2 * ((\<Sum>i<e. a ^ i) * u)"
      by simp
    also have "\<dots> \<longleftrightarrow> 2 ^ n dvd (\<Sum>i<e. a ^ i) * u" by simp
    also have "\<dots> \<longleftrightarrow> 2 ^ n dvd (\<Sum>i<e. a ^ i)"
      using cop by (simp add: coprime_dvd_mult_left_iff)
    also have "\<dots> \<longleftrightarrow> 2 ^ n dvd int e" by (rule Suc.IH)
    also have "\<dots> \<longleftrightarrow> (2::int) ^ Suc n dvd int d" by (simp add: e)
    finally show ?thesis .
  qed
qed

lemma mod_mult_add_cong: "(A * (B mod m) + C) mod m = (A * B + C) mod (m::int)"
  by (metis mod_add_left_eq mod_mult_right_eq)

lemma rand_iter:
  "int ((rand ^^ k) x) mod 4294967296 =
   (1664525 ^ k * int x + 1013904223 * (\<Sum>i<k. 1664525 ^ i)) mod 4294967296"
proof (induction k arbitrary: x)
  case 0
  then show ?case by simp
next
  case (Suc k)
  have "int ((rand ^^ Suc k) x) mod 4294967296 = int ((rand ^^ k) (rand x)) mod 4294967296"
    by (simp add: funpow_swap1)
  also have "\<dots> = (1664525 ^ k * int (rand x) + 1013904223 * (\<Sum>i<k. 1664525 ^ i)) mod 4294967296"
    by (rule Suc.IH)
  also have "int (rand x) = (int x * 1664525 + 1013904223) mod 4294967296"
    by (simp add: rand_def zmod_int)
  also have "(1664525 ^ k * ((int x * 1664525 + 1013904223) mod 4294967296) + 1013904223 * (\<Sum>i<k. 1664525 ^ i)) mod 4294967296
      = (1664525 ^ k * (int x * 1664525 + 1013904223) + 1013904223 * (\<Sum>i<k. 1664525 ^ i)) mod 4294967296"
    by (rule mod_mult_add_cong)
  also have "1664525 ^ k * (int x * 1664525 + 1013904223) + 1013904223 * (\<Sum>i<k. 1664525 ^ i)
      = 1664525 ^ Suc k * int x + 1013904223 * (\<Sum>i<Suc k. 1664525 ^ i)"
    by (simp add: algebra_simps)
  finally show ?case .
qed

lemma rand_cycle:
  assumes "(rand ^^ d) y = y" "y < 4294967296"
  shows "4294967296 dvd d"
proof -
  let ?S = "\<Sum>i<d. (1664525::int) ^ i"
  have "int y mod 4294967296 = int y" using assms(2) by simp
  with rand_iter[of d y] assms(1)
  have "(1664525 ^ d * int y + 1013904223 * ?S) mod 4294967296 = int y mod 4294967296" by simp
  then have "4294967296 dvd (1664525 ^ d * int y + 1013904223 * ?S) - int y"
    by (simp add: mod_eq_dvd_iff)
  moreover have "(1664525 ^ d * int y + 1013904223 * ?S) - int y = ?S * (1664524 * int y + 1013904223)"
  proof -
    have "(1664525::int) ^ d - 1 = 1664524 * ?S" using power_diff_1_eq[of "1664525::int" d] by simp
    then have "(1664525::int) ^ d = 1664524 * ?S + 1" by simp
    then show ?thesis by (simp add: algebra_simps)
  qed
  ultimately have dv: "(2::int) ^ 32 dvd ?S * (1664524 * int y + 1013904223)" by simp
  have "odd (1664524 * int y + 1013904223)" by simp
  then have "coprime ((2::int) ^ 32) (1664524 * int y + 1013904223)" by (rule odd_coprime_pow2)
  from coprime_dvd_mult_left_iff[OF this] dv have "(2::int) ^ 32 dvd ?S" by blast
  moreover have "(2::int) ^ 32 dvd ?S \<longleftrightarrow> 2 ^ 32 dvd int d"
    by (rule geo_two_adic) simp_all
  ultimately have "(2::int) ^ 32 dvd int d" by blast
  then have "int 4294967296 dvd int d" by simp
  then show ?thesis by (simp only: int_dvd_int_iff)
qed

lemma rand_orbit_inj:
  assumes "x < 4294967296"
  shows "inj_on (\<lambda>k. (rand ^^ k) x) {..<4294967296}"
proof (rule inj_onI)
  fix i j :: nat
  assume i: "i \<in> {..<4294967296}" and j: "j \<in> {..<4294967296}"
    and eq: "(rand ^^ i) x = (rand ^^ j) x"
  have aux: "i' = j'" if "i' \<le> j'" "j' < 4294967296" "(rand ^^ i') x = (rand ^^ j') x" for i' j' :: nat
  proof -
    define y where "y = (rand ^^ i') x"
    have ylt: "y < 4294967296" using assms rand_lt by (cases i') (simp_all add: y_def)
    have "(rand ^^ (j' - i')) y = (rand ^^ j') x"
      unfolding y_def using that(1) by (metis le_add_diff_inverse2 funpow_add comp_apply)
    then have "(rand ^^ (j' - i')) y = y" using that(3) by (simp add: y_def)
    from rand_cycle[OF this ylt] have "4294967296 dvd j' - i'" .
    moreover have "j' - i' < 4294967296" using that(2) by simp
    ultimately have "j' - i' = 0" using dvd_imp_le[of 4294967296 "j' - i'"] by auto
    with that(1) show ?thesis by simp
  qed
  show "i = j"
  proof (cases "i \<le> j")
    case True
    then show ?thesis using aux[of i j] j eq by simp
  next
    case False
    then show ?thesis using aux[of j i] i eq by simp
  qed
qed

lemma rand_full_period:
  assumes "T < 4294967296"
  shows "\<exists>k. (rand ^^ Suc k) s = T"
proof -
  define x where "x = rand s"
  have xlt: "x < 4294967296" by (simp add: x_def rand_lt)
  let ?f = "\<lambda>k. (rand ^^ k) x"
  have sub: "?f ` {..<4294967296} \<subseteq> {..<4294967296}"
  proof
    fix v assume "v \<in> ?f ` {..<4294967296}"
    then obtain k where "v = (rand ^^ k) x" by blast
    then show "v \<in> {..<4294967296}" using xlt rand_lt by (cases k) simp_all
  qed
  have "card (?f ` {..<4294967296}) = card {..<4294967296::nat}"
    using rand_orbit_inj[OF xlt] by (rule card_image)
  with sub have "?f ` {..<4294967296} = {..<4294967296}"
    by (intro card_subset_eq) simp_all
  moreover have "T \<in> {..<4294967296}" using assms by simp
  ultimately have "T \<in> ?f ` {..<4294967296}" by blast
  then obtain k where "(rand ^^ k) x = T" by blast
  then have "(rand ^^ Suc k) s = T" by (simp add: x_def funpow_swap1)
  then show ?thesis by blast
qed

section \<open>The sampling loop returns\<close>

lemma draw_index_nat: "draw_index n r = (r * n) div 4294967296"
proof -
  have "floor_mul r (int n) = int ((r * n) div 4294967296)"
    by (simp add: floor_mul_def zdiv_int)
  then show ?thesis by (simp add: draw_index_def)
qed

lemma draw_index_lt: "r < 4294967296 \<Longrightarrow> 0 < n \<Longrightarrow> draw_index n r < n"
proof -
  assume r: "r < 4294967296" and n: "0 < n"
  have "r * n < 4294967296 * n" using r n by simp
  then have "(r * n) div 4294967296 < n"
    by (simp add: less_mult_imp_div_less mult.commute)
  then show ?thesis by (simp add: draw_index_nat)
qed

lemma index_hit_small:
  assumes "n \<le> 4294967296" "j < n"
  shows "\<exists>T<4294967296. draw_index n T = j"
proof -
  define M :: nat where "M = 4294967296"
  define T where "T = (j * M + n - 1) div n"
  have n0: "0 < n" using assms(2) by simp
  have up: "T * n \<le> j * M + n - 1" unfolding T_def by (rule div_times_less_eq_dividend)
  have "j * M + n - 1 < n + T * n" unfolding T_def using n0 by (rule dividend_less_div_times)
  then have lo: "j * M \<le> T * n" using n0 by simp
  have "T * n < j * M + M" using up assms(1) n0 by (simp add: M_def)
  then have "T * n < M * Suc j" by (simp add: mult.commute)
  moreover have "M * j \<le> T * n" using lo by (simp add: mult.commute)
  ultimately have "(T * n) div M = j" by (intro div_nat_eqI) simp_all
  moreover have "T < M"
  proof (rule ccontr)
    assume "\<not> T < M"
    then have "M * n \<le> T * n" by simp
    also have "\<dots> \<le> j * M + n - 1" by (rule up)
    also have "\<dots> \<le> (n - 1) * M + n - 1"
    proof -
      have "j * M \<le> (n - 1) * M" using assms(2) by (intro mult_le_mono1) simp
      then show ?thesis by (intro diff_le_mono add_le_mono1)
    qed
    also have "\<dots> < (n - 1) * M + M" using assms(1) n0 by (simp add: M_def)
    also have "\<dots> = M * n" using n0 by (cases n) (simp_all add: algebra_simps)
    finally show False by simp
  qed
  ultimately show ?thesis by (auto simp: draw_index_nat M_def)
qed

lemma index_inj_large:
  assumes "4294967296 \<le> n"
  shows "inj_on (draw_index n) {..<4294967296}"
proof (rule inj_onI)
  fix a b :: nat
  assume eq: "draw_index n a = draw_index n b"
  have aux: False if "x < y" "draw_index n x = draw_index n y" for x y
  proof -
    have "x * n + 4294967296 \<le> x * n + n" using assms by simp
    also have "\<dots> = Suc x * n" by simp
    also have "\<dots> \<le> y * n" using that(1) by (intro mult_le_mono1) simp
    finally have "(x * n + 4294967296) div 4294967296 \<le> (y * n) div 4294967296"
      by (rule div_le_mono)
    then have "Suc ((x * n) div 4294967296) \<le> (y * n) div 4294967296" by simp
    with that(2) show False by (simp add: draw_index_nat)
  qed
  show "a = b" using aux[of a b] aux[of b a] eq by (cases a b rule: linorder_cases) auto
qed

lemma free_index:
  assumes "finite s" "card s < n" "card s < 4294967296"
  shows "\<exists>T<4294967296. draw_index n T \<notin> s"
proof (cases "n \<le> 4294967296")
  case True
  have "\<not> {..<n} \<subseteq> s"
  proof
    assume "{..<n} \<subseteq> s"
    then have "card {..<n} \<le> card s" using assms(1) by (rule card_mono[rotated])
    with assms(2) show False by simp
  qed
  then obtain j where "j < n" "j \<notin> s" by auto
  with index_hit_small[OF True] show ?thesis by blast
next
  case False
  then have "inj_on (draw_index n) {..<4294967296}" by (intro index_inj_large) simp
  then have c: "card (draw_index n ` {..<4294967296}) = 4294967296" by (simp add: card_image)
  have "\<not> draw_index n ` {..<4294967296} \<subseteq> s"
  proof
    assume "draw_index n ` {..<4294967296} \<subseteq> s"
    then have "card (draw_index n ` {..<4294967296}) \<le> card s" using assms(1) by (rule card_mono[rotated])
    with c assms(3) show False by simp
  qed
  then show ?thesis by auto
qed

lemma free_draw:
  assumes "finite s" "card s < n" "card s < 4294967296"
  shows "\<exists>m. draw_index n ((rand ^^ Suc m) sd) \<notin> s \<and> (\<forall>t<m. draw_index n ((rand ^^ Suc t) sd) \<in> s)"
proof -
  obtain T where T: "T < 4294967296" "draw_index n T \<notin> s" using free_index[OF assms] by blast
  obtain k where "(rand ^^ Suc k) sd = T" using rand_full_period[OF T(1)] by blast
  with T(2) have "\<exists>m. draw_index n ((rand ^^ Suc m) sd) \<notin> s" by blast
  then show ?thesis by (subst (asm) exists_least_iff) auto
qed

lemma sample_loop_skip:
  assumes "length res < k" "draw_index (length arr) ((rand ^^ Suc m) sd) \<notin> s"
    "\<forall>t<m. draw_index (length arr) ((rand ^^ Suc t) sd) \<in> s"
  shows "sample_loop arr k res s sd =
         sample_loop arr k (res @ [arr ! draw_index (length arr) ((rand ^^ Suc m) sd)])
            (insert (draw_index (length arr) ((rand ^^ Suc m) sd)) s) ((rand ^^ Suc m) sd)"
  using assms
proof (induction m arbitrary: sd)
  case 0
  then show ?case by (subst sample_loop.simps) (simp add: Let_def)
next
  case (Suc m)
  have in_s: "draw_index (length arr) (rand sd) \<in> s" using Suc.prems(3)[rule_format, of 0] by simp
  have step: "sample_loop arr k res s sd = sample_loop arr k res s (rand sd)"
    using Suc.prems(1) in_s by (subst sample_loop.simps) (simp add: Let_def)
  have a: "draw_index (length arr) ((rand ^^ Suc m) (rand sd)) \<notin> s"
    using Suc.prems(2) by (simp add: funpow_swap1)
  have b: "\<forall>t<m. draw_index (length arr) ((rand ^^ Suc t) (rand sd)) \<in> s"
  proof (intro allI impI)
    fix t assume "t < m"
    then have "Suc t < Suc m" by simp
    then have "draw_index (length arr) ((rand ^^ Suc (Suc t)) sd) \<in> s"
      using Suc.prems(3) by blast
    then show "draw_index (length arr) ((rand ^^ Suc t) (rand sd)) \<in> s" by (simp add: funpow_swap1)
  qed
  have c: "(rand ^^ Suc m) (rand sd) = (rand ^^ Suc (Suc m)) sd" by (simp add: funpow_swap1)
  show ?case using Suc.IH[OF Suc.prems(1) a b] step unfolding c by simp
qed

lemma sample_loop_total:
  assumes "finite s" "card s + (k - length res) \<le> length arr" "card s + (k - length res) \<le> 4294967296"
    "s \<subseteq> {..<length arr}"
  shows "\<exists>is sd'. sample_loop arr k res s sd = Some (res @ map ((!) arr) is, sd')
           \<and> distinct is \<and> set is \<inter> s = {} \<and> set is \<subseteq> {..<length arr} \<and> length is = k - length res"
  using assms
proof (induction "k - length res" arbitrary: res s sd)
  case 0
  then have "sample_loop arr k res s sd = Some (res @ map ((!) arr) [], sd)"
    by (subst sample_loop.simps) simp
  with 0 show ?case by (intro exI[of _ "[]"]) simp
next
  case (Suc d)
  then have lt: "length res < k" by simp
  have c1: "card s < length arr" using Suc.prems(2) lt by simp
  have c2: "card s < 4294967296" using Suc.prems(3) lt by simp
  obtain m where m: "draw_index (length arr) ((rand ^^ Suc m) sd) \<notin> s"
     "\<forall>t<m. draw_index (length arr) ((rand ^^ Suc t) sd) \<in> s"
    using free_draw[OF Suc.prems(1) c1 c2] by blast
  define i where "i = draw_index (length arr) ((rand ^^ Suc m) sd)"
  define sd1 where "sd1 = (rand ^^ Suc m) sd"
  have step: "sample_loop arr k res s sd = sample_loop arr k (res @ [arr ! i]) (insert i s) sd1"
    unfolding i_def sd1_def by (rule sample_loop_skip[OF lt m])
  have ilt: "i < length arr"
    unfolding i_def using c1 by (intro draw_index_lt) (auto simp: rand_lt)
  have d: "d = k - length (res @ [arr ! i])" using Suc(2) by simp
  have cs: "card (insert i s) = Suc (card s)" using m(1) Suc.prems(1) by (simp add: i_def)
  have "\<exists>is sd'. sample_loop arr k (res @ [arr ! i]) (insert i s) sd1 = Some ((res @ [arr ! i]) @ map ((!) arr) is, sd')
           \<and> distinct is \<and> set is \<inter> insert i s = {} \<and> set is \<subseteq> {..<length arr}
           \<and> length is = k - length (res @ [arr ! i])"
    by (rule Suc(1)[OF d]) (use Suc.prems lt ilt cs in auto)
  then obtain js sd' where js: "sample_loop arr k (res @ [arr ! i]) (insert i s) sd1 = Some ((res @ [arr ! i]) @ map ((!) arr) js, sd')"
    "distinct js" "set js \<inter> insert i s = {}" "set js \<subseteq> {..<length arr}"
    "length js = k - length (res @ [arr ! i])" by blast
  have "sample_loop arr k res s sd = Some (res @ map ((!) arr) (i # js), sd')"
    using step js(1) by simp
  moreover have "distinct (i # js)" using js(2,3) by auto
  moreover have "set (i # js) \<inter> s = {}" using js(3) m(1) by (auto simp: i_def)
  moreover have "set (i # js) \<subseteq> {..<length arr}" using js(4) ilt by auto
  moreover have "length (i # js) = k - length res" using js(5) lt by simp
  ultimately show ?case by blast
qed

lemma sample_total:
  assumes "k \<le> 4294967296"
  shows "\<exists>is sd'. sample arr k sd = Some (map ((!) arr) is, sd')
           \<and> distinct is \<and> set is \<subseteq> {..<length arr} \<and> length is = min k (length arr)"
proof (cases "k \<ge> length arr")
  case True
  have "map ((!) arr) [0..<length arr] = arr" by (rule map_nth)
  then have "sample arr k sd = Some (map ((!) arr) [0..<length arr], sd)" using True by (simp add: sample_def)
  then show ?thesis using True by (intro exI[of _ "[0..<length arr]"]) auto
next
  case False
  then have "\<exists>is sd'. sample_loop arr k [] {} sd = Some ([] @ map ((!) arr) is, sd')
           \<and> distinct is \<and> set is \<inter> {} = {} \<and> set is \<subseteq> {..<length arr} \<and> length is = k - length ([]::'a list)"
    using assms by (intro sample_loop_total) simp_all
  then show ?thesis using False by (auto simp: sample_def)
qed

section \<open>Properties of the neighbor selector\<close>

lemma best_of_spec:
  assumes "uId \<notin> set cs"
  shows "\<exists>b' bd'. best_of dg uId cs (b, bd) = (b', bd') \<and>
     (if \<forall>c\<in>set cs. num dg c \<le> bd then b' = b \<and> bd' = bd
      else \<exists>i<length cs. b' = Some (cs ! i) \<and> bd' = num dg (cs ! i) \<and> bd < bd'
             \<and> (\<forall>j<length cs. num dg (cs ! j) \<le> bd') \<and> (\<forall>j<i. num dg (cs ! j) < bd'))"
  using assms
proof (induction cs arbitrary: b bd)
  case Nil
  then show ?case by simp
next
  case (Cons c cs)
  then have u: "uId \<notin> set cs" "c \<noteq> uId" by auto
  show ?case
  proof (cases "num dg c > bd")
    case True
    have eq: "best_of dg uId (c # cs) (b, bd) = best_of dg uId cs (Some c, num dg c)"
      using True u(2) by simp
    obtain b' bd' where r: "best_of dg uId cs (Some c, num dg c) = (b', bd')"
      "if \<forall>x\<in>set cs. num dg x \<le> num dg c then b' = Some c \<and> bd' = num dg c
       else \<exists>i<length cs. b' = Some (cs ! i) \<and> bd' = num dg (cs ! i) \<and> num dg c < bd'
             \<and> (\<forall>j<length cs. num dg (cs ! j) \<le> bd') \<and> (\<forall>j<i. num dg (cs ! j) < bd')"
      using Cons.IH[OF u(1), of "Some c" "num dg c"] by blast
    have nall: "\<not> (\<forall>x\<in>set (c # cs). num dg x \<le> bd)" using True by auto
    have ex: "\<exists>i<length (c # cs). b' = Some ((c # cs) ! i) \<and> bd' = num dg ((c # cs) ! i) \<and> bd < bd'
             \<and> (\<forall>j<length (c # cs). num dg ((c # cs) ! j) \<le> bd') \<and> (\<forall>j<i. num dg ((c # cs) ! j) < bd')"
    proof (cases "\<forall>x\<in>set cs. num dg x \<le> num dg c")
      case A: True
      with r(2) have b': "b' = Some c" "bd' = num dg c" by simp_all
      have "\<forall>j<length (c # cs). num dg ((c # cs) ! j) \<le> bd'"
        using A b'(2) by (auto simp: nth_Cons split: nat.splits)
      then show ?thesis using b' True by (intro exI[of _ 0]) simp
    next
      case B: False
      with r(2) obtain i where i: "i < length cs" "b' = Some (cs ! i)" "bd' = num dg (cs ! i)" "num dg c < bd'"
        "\<forall>j<length cs. num dg (cs ! j) \<le> bd'" "\<forall>j<i. num dg (cs ! j) < bd'" by auto
      have "\<forall>j<length (c # cs). num dg ((c # cs) ! j) \<le> bd'"
        using i(4,5) by (auto simp: nth_Cons split: nat.splits)
      moreover have "\<forall>j<Suc i. num dg ((c # cs) ! j) < bd'"
        using i(4,6) by (auto simp: nth_Cons split: nat.splits)
      ultimately show ?thesis using i(1,2,3,4) True by (intro exI[of _ "Suc i"]) simp
    qed
    have "best_of dg uId (c # cs) (b, bd) = (b', bd')" using eq r(1) by simp
    with ex show ?thesis unfolding if_not_P[OF nall] by blast
  next
    case False
    have eq: "best_of dg uId (c # cs) (b, bd) = best_of dg uId cs (b, bd)"
      using False by simp
    obtain b' bd' where r: "best_of dg uId cs (b, bd) = (b', bd')"
      "if \<forall>x\<in>set cs. num dg x \<le> bd then b' = b \<and> bd' = bd
       else \<exists>i<length cs. b' = Some (cs ! i) \<and> bd' = num dg (cs ! i) \<and> bd < bd'
             \<and> (\<forall>j<length cs. num dg (cs ! j) \<le> bd') \<and> (\<forall>j<i. num dg (cs ! j) < bd')"
      using Cons.IH[OF u(1), of b bd] by blast
    show ?thesis
    proof (cases "\<forall>x\<in>set cs. num dg x \<le> bd")
      case A: True
      with r(2) have "b' = b" "bd' = bd" by simp_all
      moreover have "\<forall>x\<in>set (c # cs). num dg x \<le> bd" using A False by auto
      ultimately show ?thesis using eq r(1) by (simp del: best_of.simps)
    next
      case B: False
      with r(2) obtain i where i: "i < length cs" "b' = Some (cs ! i)" "bd' = num dg (cs ! i)" "bd < bd'"
        "\<forall>j<length cs. num dg (cs ! j) \<le> bd'" "\<forall>j<i. num dg (cs ! j) < bd'" by auto
      have c: "num dg c < bd'" using False i(4) by simp
      have "\<forall>j<length (c # cs). num dg ((c # cs) ! j) \<le> bd'"
        using i(5) c by (auto simp: nth_Cons split: nat.splits)
      moreover have "\<forall>j<Suc i. num dg ((c # cs) ! j) < bd'"
        using c i(6) by (auto simp: nth_Cons split: nat.splits)
      ultimately have ex: "\<exists>k<length (c # cs). b' = Some ((c # cs) ! k) \<and> bd' = num dg ((c # cs) ! k) \<and> bd < bd'
             \<and> (\<forall>j<length (c # cs). num dg ((c # cs) ! j) \<le> bd') \<and> (\<forall>j<k. num dg ((c # cs) ! j) < bd')"
        using i(1,2,3,4) by (intro exI[of _ "Suc i"]) simp
      have nall: "\<not> (\<forall>x\<in>set (c # cs). num dg x \<le> bd)" using B by auto
      have "best_of dg uId (c # cs) (b, bd) = (b', bd')" using eq r(1) by simp
      with ex show ?thesis unfolding if_not_P[OF nall] by blast
    qed
  qed
qed

lemma filter_eq_single: "distinct xs \<Longrightarrow> x \<in> set xs \<Longrightarrow> filter (\<lambda>i. i = x) xs = [x]"
  by (induction xs) (auto simp: filter_empty_conv)

lemma sample_filter_pool:
  assumes "uId \<in> set pool" "distinct pool"
  shows "\<exists>cands sd'. sample (filter (\<lambda>i. i \<noteq> uId) pool) (min 6 (length pool - 1)) r = Some (cands, sd')
      \<and> length cands = min 6 (length pool - 1) \<and> distinct cands \<and> set cands \<subseteq> set pool - {uId}"
proof -
  define arr where "arr = filter (\<lambda>i. i \<noteq> uId) pool"
  have darr: "distinct arr" using assms(2) by (simp add: arr_def)
  have "length pool = length arr + length (filter (\<lambda>i. \<not> i \<noteq> uId) pool)"
    unfolding arr_def by (rule sum_length_filter_compl[symmetric])
  moreover have "filter (\<lambda>i. \<not> i \<noteq> uId) pool = [uId]"
    using filter_eq_single[OF assms(2,1)] by simp
  ultimately have larr: "length arr = length pool - 1" by simp
  obtain "is" sd' where s: "sample arr (min 6 (length pool - 1)) r = Some (map ((!) arr) is, sd')"
    "distinct is" "set is \<subseteq> {..<length arr}" "length is = min (min 6 (length pool - 1)) (length arr)"
  proof -
    have "min 6 (length pool - 1) \<le> (4294967296::nat)" by simp
    from sample_total[OF this, of arr r] show ?thesis using that by blast
  qed
  have "inj_on ((!) arr) (set is)"
  proof (rule inj_onI)
    fix x y assume "x \<in> set is" "y \<in> set is" "arr ! x = arr ! y"
    then show "x = y" using s(3) darr nth_eq_iff_index_eq[of arr x y] by auto
  qed
  then have "distinct (map ((!) arr) is)" using s(2) by (simp add: distinct_map)
  moreover have "set (map ((!) arr) is) \<subseteq> set pool - {uId}"
    using s(3) by (auto simp: arr_def dest!: subsetD nth_mem)
  moreover have "length (map ((!) arr) is) = min 6 (length pool - 1)" using s(4) larr by simp
  ultimately show ?thesis using s(1) unfolding arr_def by blast
qed

lemma pickNeighbor_total: "\<exists>r sd'. pickNeighbor w dg uId sd = Some (r, sd')"
proof -
  define pool where "pool = pool_of w uId (rand sd)"
  have "min 6 (length pool - 1) \<le> (4294967296::nat)" by simp
  from sample_total[OF this, of "filter (\<lambda>i. i \<noteq> uId) pool" "rand sd"]
  obtain cands sd' where "sample (filter (\<lambda>i. i \<noteq> uId) pool) (min 6 (length pool - 1)) (rand sd) = Some (cands, sd')"
    by blast
  then show ?thesis
    unfolding pickNeighbor_def Let_def pool_def[symmetric] by (simp split: prod.splits)
qed

text \<open>
  Claim C7. For a user \<open>uId\<close> whose chosen pool lists \<open>uId\<close> once and holds no
  repeated and no zero id, \<open>pickNeighbor\<close> returns. The candidates are
  \<open>min 6 (length pool - 1)\<close> different members of the pool other than \<open>uId\<close>. The
  result is never \<open>uId\<close>; it is \<open>null\<close> exactly when the pool has no member other than
  \<open>uId\<close>; otherwise it is the first candidate whose degree counter is the largest one,
  when some counter exceeds the sentinel \<open>-1\<close>, and the first candidate when none does.
\<close>

theorem pickNeighbor_selects:
  assumes "pool = pool_of w uId (rand sd)" "uId \<in> set pool" "distinct pool" "0 \<notin> set pool"
  shows "\<exists>cands sd' r.
      sample (filter (\<lambda>i. i \<noteq> uId) pool) (min 6 (length pool - 1)) (rand sd) = Some (cands, sd')
      \<and> length cands = min 6 (length pool - 1) \<and> distinct cands \<and> set cands \<subseteq> set pool - {uId}
      \<and> pickNeighbor w dg uId sd = Some (r, sd')
      \<and> r \<noteq> Some uId
      \<and> (r = None \<longleftrightarrow> set pool \<subseteq> {uId})
      \<and> (cands \<noteq> [] \<longrightarrow>
           (if \<exists>c\<in>set cands. - 1 < num dg c
            then \<exists>i<length cands. r = Some (cands ! i)
                   \<and> (\<forall>j<length cands. num dg (cands ! j) \<le> num dg (cands ! i))
                   \<and> (\<forall>j<i. num dg (cands ! j) < num dg (cands ! i))
            else r = Some (hd cands)))"
proof -
  obtain cands sd' where c: "sample (filter (\<lambda>i. i \<noteq> uId) pool) (min 6 (length pool - 1)) (rand sd) = Some (cands, sd')"
    "length cands = min 6 (length pool - 1)" "distinct cands" "set cands \<subseteq> set pool - {uId}"
    using sample_filter_pool[OF assms(2,3), of "rand sd"] by blast
  have notin: "uId \<notin> set cands" using c(4) by auto
  have nz: "0 \<notin> set cands" using c(4) assms(4) by auto
  obtain b bd where b: "best_of dg uId cands (None, - 1) = (b, bd)"
    "if \<forall>x\<in>set cands. num dg x \<le> - 1 then b = None \<and> bd = - 1
     else \<exists>i<length cands. b = Some (cands ! i) \<and> bd = num dg (cands ! i) \<and> - 1 < bd
             \<and> (\<forall>j<length cands. num dg (cands ! j) \<le> bd) \<and> (\<forall>j<i. num dg (cands ! j) < bd)"
    using best_of_spec[OF notin, of dg None "- 1"] by blast
  define r where "r = (if falsy b \<and> cands \<noteq> [] then Some (hd cands) else b)"
  have pn: "pickNeighbor w dg uId sd = Some (r, sd')"
    unfolding pickNeighbor_def Let_def assms(1)[symmetric] c(1) by (simp add: b(1) r_def)
  have bmem: "b = None \<or> (\<exists>x\<in>set cands. b = Some x)"
    using b(2) by (auto split: if_splits)
  have rmem: "r = None \<and> cands = [] \<or> (\<exists>x\<in>set cands. r = Some x)"
    using bmem by (cases cands) (auto simp: r_def falsy_def)
  have r1: "r \<noteq> Some uId" using rmem notin by auto
  have "length pool \<le> 1 \<longleftrightarrow> set pool \<subseteq> {uId}"
  proof
    assume "length pool \<le> 1"
    then show "set pool \<subseteq> {uId}" using assms(2) by (cases pool) auto
  next
    assume "set pool \<subseteq> {uId}"
    then have "card (set pool) \<le> card {uId}" by (intro card_mono) simp_all
    then show "length pool \<le> 1" using assms(3) by (simp add: distinct_card)
  qed
  moreover have "cands = [] \<longleftrightarrow> length pool \<le> 1" using c(2) by (cases cands) auto
  moreover have "r = None \<longleftrightarrow> cands = []" using rmem by auto
  ultimately have r2: "r = None \<longleftrightarrow> set pool \<subseteq> {uId}" by simp
  have r3: "cands \<noteq> [] \<longrightarrow>
           (if \<exists>c\<in>set cands. - 1 < num dg c
            then \<exists>i<length cands. r = Some (cands ! i)
                   \<and> (\<forall>j<length cands. num dg (cands ! j) \<le> num dg (cands ! i))
                   \<and> (\<forall>j<i. num dg (cands ! j) < num dg (cands ! i))
            else r = Some (hd cands))"
  proof
    assume ne: "cands \<noteq> []"
    show "if \<exists>c\<in>set cands. - 1 < num dg c
            then \<exists>i<length cands. r = Some (cands ! i)
                   \<and> (\<forall>j<length cands. num dg (cands ! j) \<le> num dg (cands ! i))
                   \<and> (\<forall>j<i. num dg (cands ! j) < num dg (cands ! i))
            else r = Some (hd cands)"
    proof (cases "\<exists>c\<in>set cands. - 1 < num dg c")
      case True
      then have "\<not> (\<forall>x\<in>set cands. num dg x \<le> - 1)" by fastforce
      with b(2) obtain i where i: "i < length cands" "b = Some (cands ! i)" "bd = num dg (cands ! i)"
        "\<forall>j<length cands. num dg (cands ! j) \<le> bd" "\<forall>j<i. num dg (cands ! j) < bd" by auto
      have "cands ! i \<noteq> 0" using nz i(1) nth_mem by metis
      then have "r = b" using i(2) by (simp add: r_def falsy_def)
      with i True show ?thesis by auto
    next
      case False
      then have "\<forall>x\<in>set cands. num dg x \<le> - 1" by fastforce
      with b(2) have "b = None" by simp
      then have "r = Some (hd cands)" using ne by (simp add: r_def falsy_def)
      with False show ?thesis by simp
    qed
  qed
  show ?thesis using c pn r1 r2 r3 by blast
qed


section \<open>Properties of the undirected edge builder\<close>

lemma flushEdges_ok:
  "\<exists>st'. flushEdges c st = Inr st' \<and> edgeBatch st' = [] \<and> all_edges st' = all_edges st
     \<and> seed st' = seed st \<and> degree st' = degree st \<and> friendSet st' = friendSet st
     \<and> totalEdges st' = totalEdges st \<and> progressCounter st' = progressCounter st"
  by (cases "insertEdges c (submitted st) (edgeBatch st)")
     (simp_all add: flushEdges_def try_catch_def all_edges_def)

lemma push_edge_simps [simp]:
  "all_edges (push_edge uId vId k st) =
     all_edges st @ [\<lparr>etype = ''friend'', src = uId, dst = vId, pair = k, weight = 1\<rparr>]"
  "seed (push_edge uId vId k st) = seed st"
  "degree (push_edge uId vId k st) = ((degree st)(uId \<mapsto> num (degree st) uId + 1))
                       (vId \<mapsto> num ((degree st)(uId \<mapsto> num (degree st) uId + 1)) vId + 1)"
  "friendSet (push_edge uId vId k st) = insert k (friendSet st)"
  "totalEdges (push_edge uId vId k st) = totalEdges st + 1"
  "progressCounter (push_edge uId vId k st) = progressCounter st"
  by (simp_all add: push_edge_def all_edges_def Let_def)

lemma note_progress_simps [simp]:
  "all_edges (note_progress st) = all_edges st"
  "seed (note_progress st) = seed st"
  "degree (note_progress st) = degree st"
  "friendSet (note_progress st) = friendSet st"
  "totalEdges (note_progress st) = totalEdges st"
  "progressCounter (note_progress st) = progressCounter st + 1"
  "edgeBatch (note_progress st) = edgeBatch st"
  "submitted (note_progress st) = submitted st"
  by (simp_all add: note_progress_def all_edges_def Let_def)

lemma accept_edge_ok:
  "\<exists>st'. accept_edge c uId vId k st = Inr st'
     \<and> all_edges st' = all_edges st @ [\<lparr>etype = ''friend'', src = uId, dst = vId, pair = k, weight = 1\<rparr>]
     \<and> seed st' = seed st
     \<and> degree st' = ((degree st)(uId \<mapsto> num (degree st) uId + 1))
                       (vId \<mapsto> num ((degree st)(uId \<mapsto> num (degree st) uId + 1)) vId + 1)
     \<and> friendSet st' = insert k (friendSet st)
     \<and> totalEdges st' = totalEdges st + 1 \<and> progressCounter st' = progressCounter st + 1"
proof -
  define st2 where "st2 = push_edge uId vId k st"
  obtain st3 where st3: "(if length (edgeBatch st2) \<ge> BATCH_SIZE c then flushEdges c st2 else Inr st2) = Inr st3"
    "all_edges st3 = all_edges st2" "seed st3 = seed st2" "degree st3 = degree st2"
    "friendSet st3 = friendSet st2" "totalEdges st3 = totalEdges st2" "progressCounter st3 = progressCounter st2"
    using flushEdges_ok[of c st2] by (cases "length (edgeBatch st2) \<ge> BATCH_SIZE c") auto
  have "accept_edge c uId vId k st = Inr (note_progress st3)"
    unfolding accept_edge_def st2_def[symmetric] st3(1) by simp
  then show ?thesis
    using st3(2-) by (simp add: st2_def)
qed

lemma friend_loop_exit:
  assumes "\<not> (degree_below (degree st) uId d \<and> totalEdges st < targetEdges c)"
  shows "friend_loop c uId d tries st = Some (Inr (st, tries))"
  by (subst friend_loop.simps) (simp only: assms if_False)

lemma friend_loop_break:
  "degree_below (degree st) uId d \<and> totalEdges st < targetEdges c \<Longrightarrow> d * retryFactor c < tries \<Longrightarrow>
     friend_loop c uId d tries st = Some (Inr (st, tries + 1))"
  by (subst friend_loop.simps) simp

lemma friend_loop_reject:
  assumes "degree_below (degree st) uId d \<and> totalEdges st < targetEdges c" "\<not> d * retryFactor c < tries"
    "pickNeighbor (fworld c) (degree st) uId (seed st) = Some (r, sd)"
    "r = None \<or> r = Some 0 \<or> r = Some uId \<or> (\<exists>v. r = Some v \<and> pairKey uId v \<in> friendSet st)"
  shows "friend_loop c uId d tries st = friend_loop c uId d (tries + 1) (st\<lparr>seed := sd\<rparr>)"
  using assms by (subst friend_loop.simps) (auto split: option.splits)

lemma friend_loop_accept:
  assumes "degree_below (degree st) uId d \<and> totalEdges st < targetEdges c" "\<not> d * retryFactor c < tries"
    "pickNeighbor (fworld c) (degree st) uId (seed st) = Some (Some v, sd)"
    "v \<noteq> 0" "uId \<noteq> v" "pairKey uId v \<notin> friendSet st"
    "accept_edge c uId v (pairKey uId v) (st\<lparr>seed := sd\<rparr>) = Inr st'"
  shows "friend_loop c uId d tries st = friend_loop c uId d (tries + 1) st'"
  using assms by (subst friend_loop.simps) simp

lemma friend_loop_inv:
  assumes seedQ: "\<And>st sd. Q st \<Longrightarrow> Q (st\<lparr>seed := sd\<rparr>)"
    and accQ: "\<And>st v st'. Q st \<Longrightarrow> v \<noteq> 0 \<Longrightarrow> uId \<noteq> v \<Longrightarrow> pairKey uId v \<notin> friendSet st \<Longrightarrow>
        totalEdges st < targetEdges c \<Longrightarrow>
        accept_edge c uId v (pairKey uId v) st = Inr st' \<Longrightarrow> Q st'"
    and "Q st"
  shows "\<exists>st' t'. friend_loop c uId d tries st = Some (Inr (st', t')) \<and> Q st'
           \<and> tries \<le> t' \<and> t' \<le> max (tries + 1) (d * retryFactor c + 2)
           \<and> totalEdges st \<le> totalEdges st'"
  using \<open>Q st\<close>
proof (induction "nat (d * retryFactor c + 2 - tries)" arbitrary: tries st rule: less_induct)
  case less
  show ?case
  proof (cases "degree_below (degree st) uId d \<and> totalEdges st < targetEdges c")
    case False
    then show ?thesis using less.prems friend_loop_exit[OF False] by simp
  next
    case cond: True
    show ?thesis
    proof (cases "d * retryFactor c < tries")
      case True
      then show ?thesis using less.prems friend_loop_break[OF cond True] by simp
    next
      case nb: False
      obtain r sd where pn: "pickNeighbor (fworld c) (degree st) uId (seed st) = Some (r, sd)"
        using pickNeighbor_total by blast
      have dec: "nat (d * retryFactor c + 2 - (tries + 1)) < nat (d * retryFactor c + 2 - tries)"
        using nb by simp
      have Q1: "Q (st\<lparr>seed := sd\<rparr>)" using less.prems by (rule seedQ)
      show ?thesis
      proof (cases "r = None \<or> r = Some 0 \<or> r = Some uId \<or> (\<exists>v. r = Some v \<and> pairKey uId v \<in> friendSet st)")
        case True
        have eq: "friend_loop c uId d tries st = friend_loop c uId d (tries + 1) (st\<lparr>seed := sd\<rparr>)"
          by (rule friend_loop_reject[OF cond nb pn True])
        from less.hyps[OF dec Q1] obtain st' t' where
          "friend_loop c uId d (tries + 1) (st\<lparr>seed := sd\<rparr>) = Some (Inr (st', t'))" "Q st'"
          "tries + 1 \<le> t'" "t' \<le> max (tries + 1 + 1) (d * retryFactor c + 2)"
          "totalEdges (st\<lparr>seed := sd\<rparr>) \<le> totalEdges st'" by blast
        then show ?thesis using eq nb by auto
      next
        case False
        then obtain v where v: "r = Some v" "v \<noteq> 0" "uId \<noteq> v" "pairKey uId v \<notin> friendSet st"
          by (cases r) auto
        obtain st1 where acc: "accept_edge c uId v (pairKey uId v) (st\<lparr>seed := sd\<rparr>) = Inr st1"
          "totalEdges st1 = totalEdges (st\<lparr>seed := sd\<rparr>) + 1"
          using accept_edge_ok[of c uId v "pairKey uId v" "st\<lparr>seed := sd\<rparr>"] by blast
        have Q2: "Q st1" using accQ[OF Q1 v(2,3) _ _ acc(1)] v(4) cond by simp
        have eq: "friend_loop c uId d tries st = friend_loop c uId d (tries + 1) st1"
          using friend_loop_accept[OF cond nb pn[unfolded v(1)] v(2,3,4) acc(1)] .
        from less.hyps[OF dec Q2] obtain st' t' where
          "friend_loop c uId d (tries + 1) st1 = Some (Inr (st', t'))" "Q st'"
          "tries + 1 \<le> t'" "t' \<le> max (tries + 1 + 1) (d * retryFactor c + 2)"
          "totalEdges st1 \<le> totalEdges st'" by blast
        then show ?thesis using eq nb acc(2) by auto
      qed
    qed
  qed
qed

lemma str_less_asym: "str_less s t \<Longrightarrow> \<not> str_less t s"
  by (induction s t rule: str_less.induct) (auto split: if_splits)

lemma str_less_total: "\<not> str_less s t \<Longrightarrow> \<not> str_less t s \<Longrightarrow> s = t"
proof (induction s t rule: str_less.induct)
  case (4 x xs y ys)
  then have "(of_char x :: nat) = of_char y" by (auto split: if_splits)
  then have "x = y" by simp
  moreover have "xs = ys" using 4 \<open>(of_char x :: nat) = of_char y\<close> by (auto split: if_splits)
  ultimately show ?case by simp
qed auto

lemma pairKey_sym: "pairKey a b = pairKey b a"
  using str_less_asym[of "toString a" "toString b"] str_less_asym[of "toString b" "toString a"]
    str_less_total[of "toString a" "toString b"]
  by (auto simp: pairKey_def Let_def)

lemma all_edges_seed [simp]: "all_edges (st\<lparr>seed := sd\<rparr>) = all_edges st"
  by (simp add: all_edges_def)

lemma dedup_ok_seed: "dedup_ok st \<Longrightarrow> dedup_ok (st\<lparr>seed := sd\<rparr>)"
  by (simp add: dedup_ok_def)

lemma dedup_ok_accept:
  assumes "dedup_ok st" "uId \<noteq> v" "pairKey uId v \<notin> friendSet st"
    "accept_edge c uId v (pairKey uId v) st = Inr st'"
  shows "dedup_ok st'"
proof -
  from accept_edge_ok[of c uId v "pairKey uId v" st] assms(4)
  have e: "all_edges st' = all_edges st @ [\<lparr>etype = ''friend'', src = uId, dst = v, pair = pairKey uId v, weight = 1\<rparr>]"
    "friendSet st' = insert (pairKey uId v) (friendSet st)" by auto
  show ?thesis using assms(1,2,3) unfolding dedup_ok_def e by auto
qed

lemma friend_users_inv:
  assumes seedQ: "\<And>st sd. Q st \<Longrightarrow> Q (st\<lparr>seed := sd\<rparr>)"
    and accQ: "\<And>st uId v st'. Q st \<Longrightarrow> v \<noteq> 0 \<Longrightarrow> uId \<noteq> v \<Longrightarrow> pairKey uId v \<notin> friendSet st \<Longrightarrow>
        totalEdges st < targetEdges c \<Longrightarrow>
        accept_edge c uId v (pairKey uId v) st = Inr st' \<Longrightarrow> Q st'"
    and "Q st"
  shows "\<exists>st'. friend_users c us st = Some (Inr st') \<and> Q st' \<and> totalEdges st \<le> totalEdges st'"
  using \<open>Q st\<close>
proof (induction us arbitrary: st)
  case Nil
  then show ?case by simp
next
  case (Cons u us)
  have "\<exists>st' t'. friend_loop c u (desired_of c u) 0 st = Some (Inr (st', t')) \<and> Q st'
           \<and> 0 \<le> t' \<and> t' \<le> max (0 + 1) (desired_of c u * retryFactor c + 2)
           \<and> totalEdges st \<le> totalEdges st'"
  proof (rule friend_loop_inv[where Q = Q])
    show "\<And>st sd. Q st \<Longrightarrow> Q (st\<lparr>seed := sd\<rparr>)" by (rule seedQ)
    show "\<And>st v st'. Q st \<Longrightarrow> v \<noteq> 0 \<Longrightarrow> u \<noteq> v \<Longrightarrow> pairKey u v \<notin> friendSet st \<Longrightarrow>
        totalEdges st < targetEdges c \<Longrightarrow> accept_edge c u v (pairKey u v) st = Inr st' \<Longrightarrow> Q st'"
      by (rule accQ)
    show "Q st" by (rule Cons.prems)
  qed
  then obtain st1 t1 where l: "friend_loop c u (desired_of c u) 0 st = Some (Inr (st1, t1))" "Q st1"
    "totalEdges st \<le> totalEdges st1" by blast
  show ?case
  proof (cases "targetEdges c \<le> totalEdges st1")
    case True
    then show ?thesis using l by simp
  next
    case False
    obtain st' where "friend_users c us st1 = Some (Inr st')" "Q st'" "totalEdges st1 \<le> totalEdges st'"
      using Cons.IH[OF l(2)] by blast
    then show ?thesis using l False by auto
  qed
qed

lemma friend_edges_inv:
  assumes seedQ: "\<And>st sd. Q st \<Longrightarrow> Q (st\<lparr>seed := sd\<rparr>)"
    and accQ: "\<And>st uId v st'. Q st \<Longrightarrow> v \<noteq> 0 \<Longrightarrow> uId \<noteq> v \<Longrightarrow> pairKey uId v \<notin> friendSet st \<Longrightarrow>
        totalEdges st < targetEdges c \<Longrightarrow>
        accept_edge c uId v (pairKey uId v) st = Inr st' \<Longrightarrow> Q st'"
    and flushQ: "\<And>st st'. Q st \<Longrightarrow> flushEdges c st = Inr st' \<Longrightarrow> Q st'"
    and "Q (friend_init dg sd)"
  shows "\<exists>st'. friend_edges c dg sd = Some (Inr st') \<and> Q st' \<and> edgeBatch st' = []"
proof -
  have "\<exists>st'. friend_users c (allUserIds (fworld c)) (friend_init dg sd) = Some (Inr st') \<and> Q st'
          \<and> totalEdges (friend_init dg sd) \<le> totalEdges st'"
  proof (rule friend_users_inv[where Q = Q])
    show "\<And>st sd. Q st \<Longrightarrow> Q (st\<lparr>seed := sd\<rparr>)" by (rule seedQ)
    show "\<And>st uId v st'. Q st \<Longrightarrow> v \<noteq> 0 \<Longrightarrow> uId \<noteq> v \<Longrightarrow> pairKey uId v \<notin> friendSet st \<Longrightarrow>
        totalEdges st < targetEdges c \<Longrightarrow> accept_edge c uId v (pairKey uId v) st = Inr st' \<Longrightarrow> Q st'"
      by (rule accQ)
    show "Q (friend_init dg sd)" by (rule assms(4))
  qed
  then obtain st1 where u: "friend_users c (allUserIds (fworld c)) (friend_init dg sd) = Some (Inr st1)" "Q st1"
    by blast
  obtain st2 where f: "flushEdges c st1 = Inr st2" "edgeBatch st2 = []"
    using flushEdges_ok[of c st1] by blast
  have "Q st2" using flushQ[OF u(2) f(1)] .
  then show ?thesis using u(1) f by (simp add: friend_edges_def)
qed

lemma dedup_ok_flush: "dedup_ok st \<Longrightarrow> flushEdges c st = Inr st' \<Longrightarrow> dedup_ok st'"
  using flushEdges_ok[of c st] by (auto simp: dedup_ok_def)

lemma dedup_ok_init: "dedup_ok (friend_init dg sd)"
  by (simp add: dedup_ok_def friend_init_def all_edges_def)

text \<open>
  Claim C2. The friend-edge phase returns, whatever the store does, and among all the
  friend edges it has handed to the store no pair key occurs twice, every edge joins two
  different users, its key is the pair key of its endpoints, the pair key does not depend
  on the order of the endpoints, and no unordered pair of users occurs twice.
\<close>

theorem friend_edges_no_duplicate_pair:
  "\<exists>st. friend_edges c dg sd = Some (Inr st) \<and> edgeBatch st = [] \<and>
     distinct (map pair (concat (submitted st))) \<and>
     (\<forall>e\<in>set (concat (submitted st)). src e \<noteq> dst e \<and> pair e = pairKey (src e) (dst e)
         \<and> pairKey (src e) (dst e) = pairKey (dst e) (src e)) \<and>
     distinct (map (\<lambda>e. {src e, dst e}) (concat (submitted st)))"
proof -
  have "\<exists>st'. friend_edges c dg sd = Some (Inr st') \<and> dedup_ok st' \<and> edgeBatch st' = []"
  proof (rule friend_edges_inv[where Q = dedup_ok])
    show "\<And>st sd. dedup_ok st \<Longrightarrow> dedup_ok (st\<lparr>seed := sd\<rparr>)" by (rule dedup_ok_seed)
    show "\<And>st uId v st'. dedup_ok st \<Longrightarrow> v \<noteq> 0 \<Longrightarrow> uId \<noteq> v \<Longrightarrow> pairKey uId v \<notin> friendSet st \<Longrightarrow>
        totalEdges st < targetEdges c \<Longrightarrow> accept_edge c uId v (pairKey uId v) st = Inr st' \<Longrightarrow> dedup_ok st'"
      by (rule dedup_ok_accept)
    show "\<And>st st'. dedup_ok st \<Longrightarrow> flushEdges c st = Inr st' \<Longrightarrow> dedup_ok st'" by (rule dedup_ok_flush)
    show "dedup_ok (friend_init dg sd)" by (rule dedup_ok_init)
  qed
  then obtain st where st: "friend_edges c dg sd = Some (Inr st)" "dedup_ok st" "edgeBatch st = []"
    by blast
  define E where "E = concat (submitted st)"
  have E: "all_edges st = E" using st(3) by (simp add: all_edges_def E_def)
  have d: "distinct (map pair E)" and p: "\<forall>e\<in>set E. src e \<noteq> dst e \<and> pair e = pairKey (src e) (dst e)"
    using st(2) unfolding dedup_ok_def E by simp_all
  have dE: "distinct E" and inj: "inj_on pair (set E)" using d by (simp_all add: distinct_map)
  have "inj_on (\<lambda>e. {src e, dst e}) (set E)"
  proof (rule inj_onI)
    fix e1 e2 assume m: "e1 \<in> set E" "e2 \<in> set E" and eq: "{src e1, dst e1} = {src e2, dst e2}"
    from eq have "src e1 = src e2 \<and> dst e1 = dst e2 \<or> src e1 = dst e2 \<and> dst e1 = src e2"
      by (auto simp: doubleton_eq_iff)
    then have "pairKey (src e1) (dst e1) = pairKey (src e2) (dst e2)"
      using pairKey_sym by auto
    then have "pair e1 = pair e2" using p m by simp
    then show "e1 = e2" using inj m by (auto dest: inj_onD)
  qed
  then have "distinct (map (\<lambda>e. {src e, dst e}) E)" using dE by (simp add: distinct_map)
  then show ?thesis using st(1,3) d p pairKey_sym unfolding E_def by blast
qed

lemma friend_users_reached:
  assumes "targetEdges c \<le> totalEdges st"
  shows "friend_users c us st = Some (Inr st)"
proof (cases us)
  case Nil
  then show ?thesis by simp
next
  case (Cons u rest)
  have "\<not> (degree_below (degree st) u (desired_of c u) \<and> totalEdges st < targetEdges c)"
    using assms by simp
  from friend_loop_exit[OF this] show ?thesis using assms Cons by simp
qed

lemma capped_accept:
  assumes "totalEdges st \<le> targetEdges c \<and> totalEdges st = int (length (all_edges st))"
    "totalEdges st < targetEdges c" "accept_edge c uId v k st = Inr st'"
  shows "totalEdges st' \<le> targetEdges c \<and> totalEdges st' = int (length (all_edges st'))"
  using accept_edge_ok[of c uId v k st] assms by auto

text \<open>
  Claim C4. From any point of the generation at which the accepted count is at most
  \<open>targetEdges\<close>, the inner loop for a user and the outer loop over the remaining users
  both return with a count that has not decreased and is still at most \<open>targetEdges\<close>;
  once the count equals \<open>targetEdges\<close> neither loop changes the state any more. The whole
  phase, which starts from a count of 0, ends with a count that is at most a non-negative
  \<open>targetEdges\<close> and equals the number of edges handed to the store; a smaller count is
  an ordinary result.
\<close>

theorem accepted_count_capped:
  assumes "totalEdges st \<le> targetEdges c"
  shows "\<exists>st1 t st2. friend_loop c uId d tries st = Some (Inr (st1, t))
      \<and> totalEdges st \<le> totalEdges st1 \<and> totalEdges st1 \<le> targetEdges c
      \<and> friend_users c us st = Some (Inr st2)
      \<and> totalEdges st \<le> totalEdges st2 \<and> totalEdges st2 \<le> targetEdges c
      \<and> (totalEdges st = targetEdges c \<longrightarrow> st1 = st \<and> st2 = st)
      \<and> (0 \<le> targetEdges c \<longrightarrow>
           (\<exists>st3. friend_edges c dg sd = Some (Inr st3) \<and> totalEdges st3 \<le> targetEdges c
              \<and> totalEdges st3 = int (length (concat (submitted st3)))))"
proof -
  let ?Q = "\<lambda>st. totalEdges st \<le> targetEdges c"
  have "\<exists>st' t'. friend_loop c uId d tries st = Some (Inr (st', t')) \<and> ?Q st'
           \<and> tries \<le> t' \<and> t' \<le> max (tries + 1) (d * retryFactor c + 2)
           \<and> totalEdges st \<le> totalEdges st'"
  proof (rule friend_loop_inv[where Q = ?Q])
    show "\<And>st sd. ?Q st \<Longrightarrow> ?Q (st\<lparr>seed := sd\<rparr>)" by simp
    show "\<And>st v st'. ?Q st \<Longrightarrow> v \<noteq> 0 \<Longrightarrow> uId \<noteq> v \<Longrightarrow> pairKey uId v \<notin> friendSet st \<Longrightarrow>
        totalEdges st < targetEdges c \<Longrightarrow> accept_edge c uId v (pairKey uId v) st = Inr st' \<Longrightarrow> ?Q st'"
      using accept_edge_ok by (metis add.commute zless_imp_add1_zle sum.inject(2))
    show "?Q st" by (rule assms)
  qed
  then obtain st1 t where l: "friend_loop c uId d tries st = Some (Inr (st1, t))"
    "totalEdges st1 \<le> targetEdges c" "totalEdges st \<le> totalEdges st1" by blast
  have "\<exists>st'. friend_users c us st = Some (Inr st') \<and> ?Q st' \<and> totalEdges st \<le> totalEdges st'"
  proof (rule friend_users_inv[where Q = ?Q])
    show "\<And>st sd. ?Q st \<Longrightarrow> ?Q (st\<lparr>seed := sd\<rparr>)" by simp
    show "\<And>st uId v st'. ?Q st \<Longrightarrow> v \<noteq> 0 \<Longrightarrow> uId \<noteq> v \<Longrightarrow> pairKey uId v \<notin> friendSet st \<Longrightarrow>
        totalEdges st < targetEdges c \<Longrightarrow> accept_edge c uId v (pairKey uId v) st = Inr st' \<Longrightarrow> ?Q st'"
      using accept_edge_ok by (metis add.commute zless_imp_add1_zle sum.inject(2))
    show "?Q st" by (rule assms)
  qed
  then obtain st2 where u: "friend_users c us st = Some (Inr st2)"
    "totalEdges st2 \<le> targetEdges c" "totalEdges st \<le> totalEdges st2" by blast
  have stop: "st1 = st \<and> st2 = st" if "totalEdges st = targetEdges c"
  proof -
    have "\<not> (degree_below (degree st) uId d \<and> totalEdges st < targetEdges c)" using that by simp
    from friend_loop_exit[OF this, of tries] l(1) have "st1 = st" by simp
    moreover have "st2 = st" using friend_users_reached[of c st us] that u(1) by simp
    ultimately show ?thesis by simp
  qed
  have phase: "\<exists>st3. friend_edges c dg sd = Some (Inr st3) \<and> totalEdges st3 \<le> targetEdges c
              \<and> totalEdges st3 = int (length (concat (submitted st3)))" if E: "0 \<le> targetEdges c"
  proof -
    let ?R = "\<lambda>st. totalEdges st \<le> targetEdges c \<and> totalEdges st = int (length (all_edges st))"
    have "\<exists>st'. friend_edges c dg sd = Some (Inr st') \<and> ?R st' \<and> edgeBatch st' = []"
    proof (rule friend_edges_inv[where Q = ?R])
      show "\<And>st sd. ?R st \<Longrightarrow> ?R (st\<lparr>seed := sd\<rparr>)" by simp
      show "\<And>st uId v st'. ?R st \<Longrightarrow> v \<noteq> 0 \<Longrightarrow> uId \<noteq> v \<Longrightarrow> pairKey uId v \<notin> friendSet st \<Longrightarrow>
        totalEdges st < targetEdges c \<Longrightarrow> accept_edge c uId v (pairKey uId v) st = Inr st' \<Longrightarrow> ?R st'"
        by (rule capped_accept)
      show "\<And>st st'. ?R st \<Longrightarrow> flushEdges c st = Inr st' \<Longrightarrow> ?R st'"
        using flushEdges_ok by (metis sum.inject(2))
      show "?R (friend_init dg sd)" using E by (simp add: friend_init_def all_edges_def)
    qed
    then show ?thesis by (auto simp: all_edges_def)
  qed
  show ?thesis using l u stop phase by blast
qed

text \<open>
  Claim C8, as amended. The inner loop of a user returns after at most
  \<open>desired * retryFactor + 2\<close> evaluations of the test \<open>tries++ > desired * retryFactor\<close>
  (at least one), that is after at most \<open>desired * retryFactor + 1\<close> attempts, accepted or
  not.
\<close>

theorem retry_cap:
  "\<exists>st' t. friend_loop c uId d 0 st = Some (Inr (st', t)) \<and> 0 \<le> t \<and> t \<le> max 1 (d * retryFactor c + 2)"
proof -
  have "\<exists>st' t'. friend_loop c uId d 0 st = Some (Inr (st', t')) \<and> True
           \<and> 0 \<le> t' \<and> t' \<le> max (0 + 1) (d * retryFactor c + 2)
           \<and> totalEdges st \<le> totalEdges st'"
    by (rule friend_loop_inv[where Q = "\<lambda>_. True"]) simp_all
  then show ?thesis by auto
qed

lemma pick_single: "pickNeighbor single_user_world dg 1 sd = Some (None, rand sd)"
  by (simp add: pickNeighbor_def pool_of_def single_user_world_def communityList_def cityList_def
      usable_def members_def sample_def falsy_def Let_def)

lemma single_user_loop:
  assumes "degree st 1 = Some 0" "totalEdges st = 0" "tries \<le> 16"
  shows "friend_loop single_user_config 1 1 tries st =
         Some (Inr (st\<lparr>seed := (rand ^^ nat (16 - tries)) (seed st)\<rparr>, 17))"
  using assms
proof (induction "nat (16 - tries)" arbitrary: tries st)
  case 0
  then have t: "tries = 16" by simp
  have c: "degree_below (degree st) 1 1 \<and> totalEdges st < targetEdges single_user_config"
    using 0 by (simp add: degree_below_def single_user_config_def)
  have "1 * retryFactor single_user_config < tries" using t by (simp add: single_user_config_def)
  from friend_loop_break[OF c this] show ?case using t by simp
next
  case (Suc n)
  then have t: "tries < 16" by simp
  have c: "degree_below (degree st) 1 1 \<and> totalEdges st < targetEdges single_user_config"
    using Suc.prems by (simp add: degree_below_def single_user_config_def)
  have nb: "\<not> 1 * retryFactor single_user_config < tries" using t by (simp add: single_user_config_def)
  have pn: "pickNeighbor (fworld single_user_config) (degree st) 1 (seed st) = Some (None, rand (seed st))"
    using pick_single[of "degree st" "seed st"] by (simp add: single_user_config_def)
  have eq: "friend_loop single_user_config 1 1 tries st =
        friend_loop single_user_config 1 1 (tries + 1) (st\<lparr>seed := rand (seed st)\<rparr>)"
    by (rule friend_loop_reject[OF c nb pn]) simp
  have n: "n = nat (16 - (tries + 1))" using Suc(2) by simp
  have "friend_loop single_user_config 1 1 (tries + 1) (st\<lparr>seed := rand (seed st)\<rparr>) =
      Some (Inr (st\<lparr>seed := rand (seed st)\<rparr>\<lparr>seed := (rand ^^ nat (16 - (tries + 1))) (seed (st\<lparr>seed := rand (seed st)\<rparr>))\<rparr>, 17))"
    by (rule Suc(1)[OF n]) (use Suc.prems t in auto)
  moreover have "(rand ^^ nat (16 - (tries + 1))) (rand (seed st)) = (rand ^^ nat (16 - tries)) (seed st)"
  proof -
    have "nat (16 - tries) = Suc (nat (16 - (tries + 1)))" using t by simp
    then show ?thesis by (simp add: funpow_swap1)
  qed
  ultimately show ?case using eq by simp
qed

text \<open>
  A user alone in the population, with a target degree of 1 and the factor 15: every
  attempt fails, and the loop gives up at the 17th evaluation of the test, after 16 failed
  attempts and not after 15.
\<close>

theorem retry_cap_counterexample:
  "\<exists>st'. friend_loop single_user_config 1 1 0 (friend_init [1 \<mapsto> 0] 1234567) = Some (Inr (st', 17))
     \<and> all_edges st' = []
     \<and> \<not> (17 \<le> 1 * retryFactor single_user_config + 1)"
proof -
  have "friend_loop single_user_config 1 1 0 (friend_init [1 \<mapsto> 0] 1234567) =
     Some (Inr ((friend_init [1 \<mapsto> 0] 1234567)\<lparr>seed := (rand ^^ nat (16 - 0)) (seed (friend_init [1 \<mapsto> 0] 1234567))\<rparr>, 17))"
    by (rule single_user_loop) (simp_all add: friend_init_def)
  moreover have "all_edges ((friend_init [1 \<mapsto> 0] 1234567)\<lparr>seed := x\<rparr>) = []" for x
    by (simp add: friend_init_def all_edges_def)
  ultimately show ?thesis by (simp add: single_user_config_def)
qed

section \<open>A run on two users\<close>

lemma pool_two: "pool_of two_user_world 1 (rand 1234567) = [1, 2]"
  by (simp add: pool_of_def two_user_world_def rand_def below_def usable_def members_def communityList_def cityList_def)

lemma pick_two: "pickNeighbor two_user_world [1 \<mapsto> 0, 2 \<mapsto> 0] 1 1234567 = Some (Some 2, rand 1234567)"
  unfolding pickNeighbor_def Let_def pool_two
  by (simp add: sample_def falsy_def num_def)

lemma toString_1: "toString 1 = ''1''" by (subst toString.simps) (simp add: digit_char_def)
lemma toString_2: "toString 2 = ''2''" by (subst toString.simps) (simp add: digit_char_def)
lemma pairKey_1_2: "pairKey 1 2 = ''1|2''"
  unfolding pairKey_def toString_1 toString_2 by simp

lemma two_user_run:
  "\<exists>st. friend_edges two_user_config [1 \<mapsto> 0, 2 \<mapsto> 0] 1234567 = Some (Inr st) \<and>
     concat (submitted st) = [\<lparr>etype = ''friend'', src = 1, dst = 2, pair = ''1|2'', weight = 1\<rparr>]"
proof -
  define st0 where "st0 = friend_init [1 \<mapsto> 0, 2 \<mapsto> 0] 1234567"
  have c: "degree_below (degree st0) 1 1 \<and> totalEdges st0 < targetEdges two_user_config"
    by (simp add: st0_def friend_init_def degree_below_def two_user_config_def)
  have nb: "\<not> 1 * retryFactor two_user_config < 0" by (simp add: two_user_config_def)
  have pn: "pickNeighbor (fworld two_user_config) (degree st0) 1 (seed st0) = Some (Some 2, rand 1234567)"
    using pick_two by (simp add: st0_def friend_init_def two_user_config_def)
  obtain st1 where a: "accept_edge two_user_config 1 2 (pairKey 1 2) (st0\<lparr>seed := rand 1234567\<rparr>) = Inr st1"
    "all_edges st1 = all_edges (st0\<lparr>seed := rand 1234567\<rparr>) @ [\<lparr>etype = ''friend'', src = 1, dst = 2, pair = pairKey 1 2, weight = 1\<rparr>]"
    "totalEdges st1 = totalEdges (st0\<lparr>seed := rand 1234567\<rparr>) + 1"
    using accept_edge_ok[of two_user_config 1 2 "pairKey 1 2" "st0\<lparr>seed := rand 1234567\<rparr>"] by blast
  have "friend_loop two_user_config 1 1 0 st0 = friend_loop two_user_config 1 1 (0 + 1) st1"
    by (rule friend_loop_accept[OF c nb pn _ _ _ a(1)]) (simp_all add: st0_def friend_init_def)
  moreover have t1: "totalEdges st1 = 1" using a(3) by (simp add: st0_def friend_init_def)
  then have "\<not> (degree_below (degree st1) 1 1 \<and> totalEdges st1 < targetEdges two_user_config)"
    by (simp add: two_user_config_def)
  from friend_loop_exit[OF this] have "friend_loop two_user_config 1 1 (0 + 1) st1 = Some (Inr (st1, 0 + 1))" .
  ultimately have l: "friend_loop two_user_config 1 1 0 st0 = Some (Inr (st1, 1))" by simp
  have d: "desired_of two_user_config 1 = 1" by (simp add: desired_of_def two_user_config_def)
  have u: "friend_users two_user_config [1, 2] st0 = Some (Inr st1)"
    using l t1 d by (simp add: two_user_config_def)
  obtain st2 where f: "flushEdges two_user_config st1 = Inr st2" "edgeBatch st2 = []" "all_edges st2 = all_edges st1"
    using flushEdges_ok[of two_user_config st1] by blast
  have fe: "friend_edges two_user_config [1 \<mapsto> 0, 2 \<mapsto> 0] 1234567 = Some (Inr st2)"
    using u f(1) by (simp add: friend_edges_def st0_def two_user_config_def two_user_world_def)
  have ae: "all_edges st2 = [\<lparr>etype = ''friend'', src = 1, dst = 2, pair = ''1|2'', weight = 1\<rparr>]"
    using f(3) a(2) pairKey_1_2 by (simp add: st0_def friend_init_def all_edges_def)
  then have "concat (submitted st2) = [\<lparr>etype = ''friend'', src = 1, dst = 2, pair = ''1|2'', weight = 1\<rparr>]"
    using f(2) by (simp add: all_edges_def)
  with fe show ?thesis by blast
qed


theorem pickNeighbor_selects_witness:
  "[1, 2] = pool_of two_user_world 1 (rand 1234567) \<and> 1 \<in> set [1, 2::nat] \<and> distinct [1, 2::nat]
   \<and> 0 \<notin> set [1, 2::nat] \<and>
   (\<exists>cands sd' r.
      sample (filter (\<lambda>i. i \<noteq> 1) [1, 2::nat]) (min 6 (length [1, 2::nat] - 1)) (rand 1234567) = Some (cands, sd')
      \<and> length cands = min 6 (length [1, 2::nat] - 1) \<and> distinct cands \<and> set cands \<subseteq> set [1, 2::nat] - {1}
      \<and> pickNeighbor two_user_world [1 \<mapsto> 0, 2 \<mapsto> 0] 1 1234567 = Some (r, sd')
      \<and> r \<noteq> Some 1
      \<and> r = Some 2)"
proof -
  have p: "[1, 2] = pool_of two_user_world 1 (rand 1234567)" by (rule pool_two[symmetric])
  have a: "1 \<in> set [1, 2::nat]" "distinct [1, 2::nat]" "0 \<notin> set [1, 2::nat]" by simp_all
  from pickNeighbor_selects[OF p a, of "[1 \<mapsto> 0, 2 \<mapsto> 0]"]
  obtain cands sd' r where r: "sample (filter (\<lambda>i. i \<noteq> 1) [1, 2::nat]) (min 6 (length [1, 2::nat] - 1)) (rand 1234567) = Some (cands, sd')"
      "length cands = min 6 (length [1, 2::nat] - 1)" "distinct cands" "set cands \<subseteq> set [1, 2::nat] - {1}"
      "pickNeighbor two_user_world [1 \<mapsto> 0, 2 \<mapsto> 0] 1 1234567 = Some (r, sd')" "r \<noteq> Some 1"
    by blast
  have "r = Some 2" using r(5) unfolding pick_two by simp
  with r p a show ?thesis by blast
qed

theorem friend_edges_no_duplicate_pair_witness:
  "\<exists>st. friend_edges two_user_config [1 \<mapsto> 0, 2 \<mapsto> 0] 1234567 = Some (Inr st) \<and>
     concat (submitted st) = [\<lparr>etype = ''friend'', src = 1, dst = 2, pair = ''1|2'', weight = 1\<rparr>] \<and>
     edgeBatch st = [] \<and>
     distinct (map pair (concat (submitted st))) \<and>
     (\<forall>e\<in>set (concat (submitted st)). src e \<noteq> dst e \<and> pair e = pairKey (src e) (dst e)
         \<and> pairKey (src e) (dst e) = pairKey (dst e) (src e)) \<and>
     distinct (map (\<lambda>e. {src e, dst e}) (concat (submitted st)))"
  using friend_edges_no_duplicate_pair[of two_user_config "[1 \<mapsto> 0, 2 \<mapsto> 0]" 1234567] two_user_run
  by auto


theorem accepted_count_capped_witness:
  "totalEdges (friend_init [1 \<mapsto> 0, 2 \<mapsto> 0] 1234567) \<le> targetEdges two_user_config \<and>
   (\<exists>st1 t st2. friend_loop two_user_config 1 1 0 (friend_init [1 \<mapsto> 0, 2 \<mapsto> 0] 1234567) = Some (Inr (st1, t))
      \<and> totalEdges st1 \<le> targetEdges two_user_config
      \<and> friend_users two_user_config [1, 2] (friend_init [1 \<mapsto> 0, 2 \<mapsto> 0] 1234567) = Some (Inr st2)
      \<and> totalEdges st2 \<le> targetEdges two_user_config
      \<and> (\<exists>st3. friend_edges two_user_config [1 \<mapsto> 0, 2 \<mapsto> 0] 1234567 = Some (Inr st3)
              \<and> totalEdges st3 \<le> targetEdges two_user_config
              \<and> totalEdges st3 = int (length (concat (submitted st3)))))"
proof -
  have h: "totalEdges (friend_init [1 \<mapsto> 0, 2 \<mapsto> 0] 1234567) \<le> targetEdges two_user_config"
    by (simp add: friend_init_def two_user_config_def)
  have e: "0 \<le> targetEdges two_user_config" by (simp add: two_user_config_def)
  from accepted_count_capped[OF h, of 1 1 0 "[1, 2]" "[1 \<mapsto> 0, 2 \<mapsto> 0]" 1234567] e h
  show ?thesis by blast
qed


theorem retry_cap_witness:
  "\<exists>st' t. friend_loop two_user_config 1 1 0 (friend_init [1 \<mapsto> 0, 2 \<mapsto> 0] 1234567) = Some (Inr (st', t))
      \<and> 0 \<le> t \<and> t \<le> max 1 (1 * retryFactor two_user_config + 2)"
  by (rule retry_cap)


section \<open>Properties of the directed edge builder\<close>

subsection \<open>Decimal strings\<close>

lemma digit_char_inj: "a < 10 \<Longrightarrow> b < 10 \<Longrightarrow> digit_char a = digit_char b \<Longrightarrow> a = b"
proof -
  assume a: "a < 10" and b: "b < 10" and e: "digit_char a = digit_char b"
  have d: "distinct ''0123456789''" by simp
  have "length ''0123456789'' = 10" by simp
  with a b e d show "a = b" unfolding digit_char_def by (metis nth_eq_iff_index_eq)
qed

lemma digit_char_mem: "a < 10 \<Longrightarrow> digit_char a \<in> set ''0123456789''"
  unfolding digit_char_def by (rule nth_mem) simp

lemma toString_digits: "set (toString n) \<subseteq> set ''0123456789''"
proof (induction n rule: toString.induct)
  case (1 n)
  show ?case
  proof (cases "n < 10")
    case True
    then show ?thesis using digit_char_mem[of n] by (subst toString.simps) simp
  next
    case False
    have "n mod 10 < 10" by simp
    from digit_char_mem[OF this] 1[OF False] False show ?thesis
      by (subst toString.simps) simp
  qed
qed

lemma toString_length: "length (toString n) = 1 \<longleftrightarrow> n < 10"
proof (cases "n < 10")
  case True
  then show ?thesis by (subst toString.simps) simp
next
  case False
  have "toString (n div 10) \<noteq> []" by (subst toString.simps) simp
  then have "length (toString (n div 10)) \<noteq> 0" by simp
  then show ?thesis using False by (subst toString.simps) simp
qed

lemma toString_inj: "toString n = toString m \<Longrightarrow> n = m"
proof (induction n arbitrary: m rule: toString.induct)
  case (1 n)
  have len: "(n < 10) = (m < 10)" using 1(2) toString_length[of n] toString_length[of m] by simp
  show ?case
  proof (cases "n < 10")
    case True
    then have m: "m < 10" using len by simp
    have "toString n = [digit_char n]" using True by (subst toString.simps) simp
    moreover have "toString m = [digit_char m]" using m by (subst toString.simps) simp
    ultimately have "digit_char n = digit_char m" using 1(2) by simp
    then show ?thesis using True m digit_char_inj by blast
  next
    case False
    then have m: "\<not> m < 10" using len by simp
    have "toString n = toString (n div 10) @ [digit_char (n mod 10)]"
      using False by (subst toString.simps) simp
    moreover have "toString m = toString (m div 10) @ [digit_char (m mod 10)]"
      using m by (subst toString.simps) simp
    ultimately have e: "toString (n div 10) = toString (m div 10)" "digit_char (n mod 10) = digit_char (m mod 10)"
      using 1(2) by simp_all
    have "n div 10 = m div 10" using 1(1)[OF False e(1)] .
    moreover have "n mod 10 = m mod 10" using e(2) digit_char_inj[of "n mod 10" "m mod 10"] by simp
    ultimately show ?thesis by (metis div_mult_mod_eq)
  qed
qed

lemma bar_split:
  assumes "s1 @ CHR ''|'' # t1 = s2 @ CHR ''|'' # t2" "CHR ''|'' \<notin> set s1" "CHR ''|'' \<notin> set s2"
  shows "s1 = s2 \<and> t1 = t2"
  using assms
proof (induction s1 arbitrary: s2)
  case Nil
  then show ?case by (cases s2) auto
next
  case (Cons a s1)
  then show ?case by (cases s2) auto
qed

lemma js_string_inj: "js_string x = js_string y \<Longrightarrow> x = y"
proof -
  assume e: "js_string x = js_string y"
  have nd: "toString n \<noteq> ''undefined''" for n
  proof
    assume "toString n = ''undefined''"
    then have "CHR ''u'' \<in> set (toString n)" by simp
    with toString_digits[of n] show False by auto
  qed
  show "x = y"
  proof (cases x)
    case None
    then show ?thesis using e nd by (cases y) (auto simp: js_string_def)
  next
    case (Some a)
    then show ?thesis using e nd[of a] toString_inj by (cases y) (auto simp: js_string_def)
  qed
qed

lemma follow_key_inj: "follow_key a x = follow_key b y \<Longrightarrow> a = b \<and> x = y"
proof -
  assume "follow_key a x = follow_key b y"
  then have e: "toString a @ CHR ''|'' # js_string x = toString b @ CHR ''|'' # js_string y"
    by (simp add: follow_key_def)
  have "CHR ''|'' \<notin> set (toString a)" "CHR ''|'' \<notin> set (toString b)"
    using toString_digits[of a] toString_digits[of b] by auto
  from bar_split[OF e this] show ?thesis using toString_inj js_string_inj by blast
qed

subsection \<open>The loops\<close>

lemma flushFollow_ok:
  "\<exists>st'. flushFollow c st = Inr st' \<and> followBatch st' = [] \<and> all_follows st' = all_follows st
     \<and> fseed st' = fseed st \<and> followSet st' = followSet st"
  by (cases "insertFollow c (fsubmitted st) (followBatch st)")
     (simp_all add: flushFollow_def try_catch_def all_follows_def)

lemma accept_follow_ok:
  "\<exists>st'. accept_follow c uId cand st = Inr st'
     \<and> all_follows st' = all_follows st @ [\<lparr>ftype = ''follow'', fsrc = uId, fdst = cand, fweight = 1\<rparr>]
     \<and> fseed st' = fseed st \<and> followSet st' = insert (follow_key uId cand) (followSet st)"
proof -
  define st1 where "st1 = push_follow uId cand st"
  have p: "all_follows st1 = all_follows st @ [\<lparr>ftype = ''follow'', fsrc = uId, fdst = cand, fweight = 1\<rparr>]"
    "fseed st1 = fseed st" "followSet st1 = insert (follow_key uId cand) (followSet st)"
    by (simp_all add: st1_def push_follow_def all_follows_def)
  show ?thesis
    using flushFollow_ok[of c st1] p unfolding accept_follow_def st1_def[symmetric] by auto
qed

lemma all_follows_seed [simp]: "all_follows (st\<lparr>fseed := sd\<rparr>) = all_follows st"
  by (simp add: all_follows_def)

lemma follow_ok_seed: "follow_ok st \<Longrightarrow> follow_ok (st\<lparr>fseed := sd\<rparr>)"
  by (simp add: follow_ok_def)

lemma follow_ok_accept:
  assumes "follow_ok st" "cand \<noteq> Some uId" "follow_key uId cand \<notin> followSet st"
    "accept_follow c uId cand st = Inr st'"
  shows "follow_ok st'"
proof -
  from accept_follow_ok[of c uId cand st] assms(4)
  have e: "all_follows st' = all_follows st @ [\<lparr>ftype = ''follow'', fsrc = uId, fdst = cand, fweight = 1\<rparr>]"
    "followSet st' = insert (follow_key uId cand) (followSet st)" by auto
  have "(uId, cand) \<notin> (\<lambda>e. (fsrc e, fdst e)) ` set (all_follows st)"
  proof
    assume "(uId, cand) \<in> (\<lambda>e. (fsrc e, fdst e)) ` set (all_follows st)"
    then obtain e where "e \<in> set (all_follows st)" "fsrc e = uId" "fdst e = cand" by auto
    then have "follow_key uId cand \<in> followSet st" using assms(1) unfolding follow_ok_def by auto
    with assms(3) show False by simp
  qed
  then show ?thesis using assms(1,2) unfolding follow_ok_def e by auto
qed

lemma follow_candidate_ok:
  assumes "communityList w uId \<noteq> None"
  shows "\<exists>cand sd. follow_candidate w uId s = Inr (cand, sd)"
proof -
  obtain l where l: "communityList w uId = Some l" using assms by blast
  obtain a b where a: "choice (allUserIds w) (rand s) = (a, b)" by (cases "choice (allUserIds w) (rand s)") auto
  obtain a' b' where b: "choice l (rand s) = (a', b')" by (cases "choice l (rand s)") auto
  show ?thesis unfolding follow_candidate_def Let_def l a b by simp
qed

lemma follow_loop_ok:
  assumes "communityList (follow_world c) uId \<noteq> None" "follow_ok st"
  shows "\<exists>st'. follow_loop c uId nF made tries st = Inr st' \<and> follow_ok st'"
  using assms(2)
proof (induction "nat (nF * 8 - tries)" arbitrary: made tries st rule: less_induct)
  case less
  show ?case
  proof (cases "made < nF \<and> tries < nF * 8")
    case False
    then have "follow_loop c uId nF made tries st = Inr st"
      by (subst follow_loop.simps) (simp only: if_False)
    with less.prems show ?thesis by simp
  next
    case True
    obtain cand sd where fc: "follow_candidate (follow_world c) uId (fseed st) = Inr (cand, sd)"
      using follow_candidate_ok[OF assms(1)] by blast
    have dec: "nat (nF * 8 - (tries + 1)) < nat (nF * 8 - tries)" using True by simp
    have ok1: "follow_ok (st\<lparr>fseed := sd\<rparr>)" using less.prems by (rule follow_ok_seed)
    show ?thesis
    proof (cases "cand = Some uId \<or> follow_key uId cand \<in> followSet st")
      case rej: True
      have "follow_loop c uId nF made tries st = follow_loop c uId nF made (tries + 1) (st\<lparr>fseed := sd\<rparr>)"
        using True fc rej by (subst follow_loop.simps) auto
      with less.hyps[OF dec ok1, of made] show ?thesis by simp
    next
      case acc: False
      obtain st1 where a: "accept_follow c uId cand (st\<lparr>fseed := sd\<rparr>) = Inr st1"
        using accept_follow_ok[of c uId cand "st\<lparr>fseed := sd\<rparr>"] by blast
      have ok2: "follow_ok st1"
        using follow_ok_accept[OF ok1 _ _ a] acc by simp
      have "follow_loop c uId nF made tries st = follow_loop c uId nF (made + 1) (tries + 1) st1"
        using True fc acc a by (subst follow_loop.simps) auto
      with less.hyps[OF dec ok2, of "made + 1"] show ?thesis by simp
    qed
  qed
qed

lemma follow_users_ok:
  assumes "\<forall>u\<in>set us. communityList (follow_world c) u \<noteq> None" "follow_ok st"
  shows "\<exists>st'. follow_users c us st = Inr st' \<and> follow_ok st'"
  using assms
proof (induction us arbitrary: st)
  case Nil
  then show ?case by simp
next
  case (Cons u us)
  obtain nF sd where r: "randint (FOLLOW_MIN c) (FOLLOW_MAX c) (fseed st) = (nF, sd)"
    by (cases "randint (FOLLOW_MIN c) (FOLLOW_MAX c) (fseed st)") auto
  have "communityList (follow_world c) u \<noteq> None" using Cons.prems(1) by simp
  from follow_loop_ok[OF this follow_ok_seed[OF Cons.prems(2)], of nF 0 0 sd]
  obtain st1 where l: "follow_loop c u nF 0 0 (st\<lparr>fseed := sd\<rparr>) = Inr st1" "follow_ok st1" by blast
  have "\<forall>u\<in>set us. communityList (follow_world c) u \<noteq> None" using Cons.prems(1) by simp
  from Cons.IH[OF this l(2)] show ?case using r l(1) by simp
qed

text \<open>
  Claim C6. When every user has a community list, the follow phase returns, whatever the
  store does, and among all the follow edges it has handed to the store no ordered pair
  (source, target) occurs twice and no edge leads from a user to that same user. The
  dedup set holds exactly the keys of these edges, and the key determines the ordered
  pair: the keys of \<open>a \<rightarrow> b\<close> and \<open>b \<rightarrow> a\<close> differ, so neither edge blocks the other.
  The set is a variable of this phase alone, empty at its start.
\<close>

theorem follow_edges_no_duplicate:
  assumes "\<forall>u\<in>set (allUserIds (follow_world c)). communityList (follow_world c) u \<noteq> None"
  shows "\<exists>st. follow_edges c sd = Inr st \<and> followBatch st = []
    \<and> distinct (map (\<lambda>e. (fsrc e, fdst e)) (concat (fsubmitted st)))
    \<and> (\<forall>e\<in>set (concat (fsubmitted st)). fdst e \<noteq> Some (fsrc e))
    \<and> followSet st = (\<lambda>e. follow_key (fsrc e) (fdst e)) ` set (concat (fsubmitted st))
    \<and> (\<forall>a x b y. follow_key a x = follow_key b y \<longrightarrow> a = b \<and> x = y)"
proof -
  have "follow_ok (follow_init sd)" by (simp add: follow_ok_def follow_init_def all_follows_def)
  from follow_users_ok[OF assms this]
  obtain st1 where u: "follow_users c (allUserIds (follow_world c)) (follow_init sd) = Inr st1" "follow_ok st1"
    by blast
  obtain st2 where f: "flushFollow c st1 = Inr st2" "followBatch st2 = []" "all_follows st2 = all_follows st1"
    "followSet st2 = followSet st1"
    using flushFollow_ok[of c st1] by blast
  have fe: "follow_edges c sd = Inr st2" using u(1) f(1) by (simp add: follow_edges_def)
  have a: "all_follows st2 = concat (fsubmitted st2)" using f(2) by (simp add: all_follows_def)
  have "follow_ok st2" using u(2) f(3,4) by (simp add: follow_ok_def)
  then show ?thesis using fe f(2) follow_key_inj unfolding follow_ok_def a by blast
qed

lemma two_follow_run:
  "\<exists>st. follow_edges two_follow_config 1234567 = Inr st \<and>
     concat (fsubmitted st) = [\<lparr>ftype = ''follow'', fsrc = 1, fdst = Some 2, fweight = 1\<rparr>,
   \<lparr>ftype = ''follow'', fsrc = 2, fdst = Some 1, fweight = 1\<rparr>]"
  by (simp add: follow_edges_def follow_loop.simps follow_candidate_def choice_def draw_index_def
      floor_mul_def rand_def below_def randint_def accept_follow_def push_follow_def flushFollow_def
      try_catch_def follow_key_def js_string_def toString.simps digit_char_def two_follow_config_def
      two_user_world_def communityList_def follow_init_def Let_def)

theorem follow_edges_no_duplicate_witness:
  "allUserIds (follow_world two_follow_config) = [1, 2]
   \<and> communityList (follow_world two_follow_config) 1 \<noteq> None
   \<and> communityList (follow_world two_follow_config) 2 \<noteq> None
   \<and> (\<exists>st. follow_edges two_follow_config 1234567 = Inr st \<and> followBatch st = []
    \<and> concat (fsubmitted st) = [\<lparr>ftype = ''follow'', fsrc = 1, fdst = Some 2, fweight = 1\<rparr>,
         \<lparr>ftype = ''follow'', fsrc = 2, fdst = Some 1, fweight = 1\<rparr>]
    \<and> distinct (map (\<lambda>e. (fsrc e, fdst e)) (concat (fsubmitted st)))
    \<and> (\<forall>e\<in>set (concat (fsubmitted st)). fdst e \<noteq> Some (fsrc e))
    \<and> followSet st = (\<lambda>e. follow_key (fsrc e) (fdst e)) ` set (concat (fsubmitted st)))"
proof -
  have h: "\<forall>u\<in>set (allUserIds (follow_world two_follow_config)). communityList (follow_world two_follow_config) u \<noteq> None"
    by (simp add: two_follow_config_def two_user_world_def communityList_def)
  have w: "allUserIds (follow_world two_follow_config) = [1, 2]"
    "communityList (follow_world two_follow_config) 1 \<noteq> None"
    "communityList (follow_world two_follow_config) 2 \<noteq> None"
    by (simp_all add: two_follow_config_def two_user_world_def communityList_def)
  from follow_edges_no_duplicate[OF h, of 1234567] two_follow_run
  have "\<exists>st. follow_edges two_follow_config 1234567 = Inr st \<and> followBatch st = []
    \<and> concat (fsubmitted st) = [\<lparr>ftype = ''follow'', fsrc = 1, fdst = Some 2, fweight = 1\<rparr>,
         \<lparr>ftype = ''follow'', fsrc = 2, fdst = Some 1, fweight = 1\<rparr>]
    \<and> distinct (map (\<lambda>e. (fsrc e, fdst e)) (concat (fsubmitted st)))
    \<and> (\<forall>e\<in>set (concat (fsubmitted st)). fdst e \<noteq> Some (fsrc e))
    \<and> followSet st = (\<lambda>e. follow_key (fsrc e) (fdst e)) ` set (concat (fsubmitted st))"
    by auto
  with w show ?thesis by blast
qed

section \<open>Properties of the population partitioner\<close>

lemma community_sizes_sum:
  assumes "i < C"
  shows "sum_list (fst (community_sizes N C i rem cs sd)) = sum_list cs + rem
       \<and> length (fst (community_sizes N C i rem cs sd)) = length cs + nat (C - i)"
  using assms
proof (induction N C i rem cs sd rule: community_sizes.induct)
  case (1 N C i rem cs sd)
  show ?case
  proof (cases "i = C - 1")
    case True
    then show ?thesis using 1(2) by (subst (1 2) community_sizes.simps) simp
  next
    case False
    define mn where "mn = N div (C * 2)"
    obtain take sd' where r: "randint mn (max mn (rem div (C - i))) sd = (take, sd')"
      by (cases "randint mn (max mn (rem div (C - i))) sd") auto
    have lt: "i + 1 < C" using False 1(2) by simp
    have eq: "community_sizes N C i rem cs sd = community_sizes N C (i + 1) (rem - take) (cs @ [take]) sd'"
      using False 1(2) r by (subst community_sizes.simps) (simp add: mn_def Let_def)
    have "sum_list (fst (community_sizes N C (i + 1) (rem - take) (cs @ [take]) sd')) = sum_list (cs @ [take]) + (rem - take)
       \<and> length (fst (community_sizes N C (i + 1) (rem - take) (cs @ [take]) sd')) = length (cs @ [take]) + nat (C - (i + 1))"
      by (rule 1(1)[OF 1(2) mn_def False _ _ lt]) (simp_all add: r)
    then show ?thesis using eq lt by simp
  qed
qed

lemma create_user_shape:
  "\<exists>c. create_user cs st =
     st\<lparr>communityIndex := c, assignedToCurrent := assignedToCurrent (create_user cs st),
        GLOBAL_USER_ID := GLOBAL_USER_ID st + 1,
        userDocs := userDocs st @ [\<lparr>uid = GLOBAL_USER_ID st, community = c\<rparr>],
        u_allUserIds := u_allUserIds st @ [GLOBAL_USER_ID st],
        u_idsByCommunity := (u_idsByCommunity st)(c \<mapsto> members (u_idsByCommunity st c) @ [GLOBAL_USER_ID st])\<rparr>"
proof (cases "community_full cs st")
  case True
  then show ?thesis
    by (intro exI[of _ "communityIndex st + 1"]) (simp add: create_user_def Let_def)
next
  case False
  then show ?thesis
    by (intro exI[of _ "communityIndex st"]) (simp add: create_user_def Let_def)
qed

lemma assigned_once_step:
  assumes "assigned_once st"
  shows "assigned_once (create_user cs st) \<and> GLOBAL_USER_ID (create_user cs st) = GLOBAL_USER_ID st + 1
     \<and> u_allUserIds (create_user cs st) = u_allUserIds st @ [GLOBAL_USER_ID st]"
proof -
  define g where "g = GLOBAL_USER_ID st"
  obtain c a where e: "create_user cs st =
     st\<lparr>communityIndex := c, assignedToCurrent := a,
        GLOBAL_USER_ID := g + 1,
        userDocs := userDocs st @ [\<lparr>uid = g, community = c\<rparr>],
        u_allUserIds := u_allUserIds st @ [g],
        u_idsByCommunity := (u_idsByCommunity st)(c \<mapsto> members (u_idsByCommunity st c) @ [g])\<rparr>"
    using create_user_shape[of cs st] unfolding g_def by blast
  have fresh: "g \<notin> set (u_allUserIds st)" using assms unfolding assigned_once_def g_def by auto
  have sub: "\<And>k. set (members (u_idsByCommunity st k)) \<subseteq> set (u_allUserIds st)"
    using assms unfolding assigned_once_def by blast
  have fresh2: "\<And>k. g \<notin> set (members (u_idsByCommunity st k))" using fresh sub by blast
  define m where "m = (u_idsByCommunity st)(c \<mapsto> members (u_idsByCommunity st c) @ [g])"
  have mem: "\<And>k. set (members (m k)) = (if k = c then insert g (set (members (u_idsByCommunity st c))) else set (members (u_idsByCommunity st k)))"
    by (auto simp: m_def members_def)
  have 1: "distinct (u_allUserIds st @ [g])" using assms fresh unfolding assigned_once_def by simp
  have 2: "\<forall>i\<in>set (u_allUserIds st @ [g]). i < g + 1" using assms unfolding assigned_once_def g_def by auto
  have 3: "\<forall>k. set (members (m k)) \<subseteq> set (u_allUserIds st @ [g])" using sub by (auto simp: mem)
  have 4: "\<forall>i\<in>set (u_allUserIds st @ [g]). \<exists>!k. i \<in> set (members (m k))"
  proof
    fix i assume "i \<in> set (u_allUserIds st @ [g])"
    then consider "i = g" | "i \<in> set (u_allUserIds st)" "i \<noteq> g" using fresh by auto
    then show "\<exists>!k. i \<in> set (members (m k))"
    proof cases
      case 1
      have "g \<in> set (members (m c))" by (simp add: mem)
      moreover have "\<And>k. g \<in> set (members (m k)) \<Longrightarrow> k = c" using fresh2 by (auto simp: mem split: if_splits)
      ultimately show ?thesis using 1 by blast
    next
      case 2
      then obtain k where k: "i \<in> set (members (u_idsByCommunity st k))"
        "\<And>k'. i \<in> set (members (u_idsByCommunity st k')) \<Longrightarrow> k' = k"
        using assms unfolding assigned_once_def by blast
      have "i \<in> set (members (m k))" using k(1) by (auto simp: mem)
      moreover have "\<And>k'. i \<in> set (members (m k')) \<Longrightarrow> k' = k"
        using k(2) 2(2) by (auto simp: mem split: if_splits)
      ultimately show ?thesis by blast
    qed
  qed
  have 5: "map uid (userDocs st @ [\<lparr>uid = g, community = c\<rparr>]) = u_allUserIds st @ [g]"
    using assms unfolding assigned_once_def by simp
  have 6: "\<forall>d\<in>set (userDocs st @ [\<lparr>uid = g, community = c\<rparr>]). uid d \<in> set (members (m (community d)))"
    using assms unfolding assigned_once_def by (auto simp: mem)
  show ?thesis
    unfolding e assigned_once_def using 1 2 3 4 5 6 by (simp add: m_def g_def)
qed

lemma create_users_once:
  assumes "assigned_once st"
  shows "assigned_once (create_users cs N created st)
     \<and> u_allUserIds (create_users cs N created st)
         = u_allUserIds st @ [GLOBAL_USER_ID st ..< GLOBAL_USER_ID st + nat (N - created)]"
  using assms
proof (induction cs N created st rule: create_users.induct)
  case (1 cs N created st)
  show ?case
  proof (cases "created < N")
    case False
    then show ?thesis using 1(2) by (subst (1 2) create_users.simps) simp
  next
    case True
    have s: "assigned_once (create_user cs st)" "GLOBAL_USER_ID (create_user cs st) = GLOBAL_USER_ID st + 1"
      "u_allUserIds (create_user cs st) = u_allUserIds st @ [GLOBAL_USER_ID st]"
      using assigned_once_step[OF 1(2), of cs] by simp_all
    have n: "nat (N - created) = Suc (nat (N - (created + 1)))" using True by simp
    have "[GLOBAL_USER_ID st ..< GLOBAL_USER_ID st + nat (N - created)]
        = GLOBAL_USER_ID st # [GLOBAL_USER_ID st + 1 ..< GLOBAL_USER_ID st + 1 + nat (N - (created + 1))]"
      unfolding n by (simp add: upt_conv_Cons)
    then show ?thesis
      using 1(1)[OF True s(1)] True s(2,3) by (subst (1 2) create_users.simps) simp
  qed
qed

text \<open>
  Claim C5. For at least one community and a population that is not negative, the
  community sizes sum to the population size, one size per community; the users created
  are the ids from 1 to the population size, each user document carries one community
  index, under which the id is filed, and every id is in the member list of exactly one
  community.
\<close>

theorem partition_exact:
  assumes "1 \<le> nCommunities" "0 \<le> N_USERS"
  shows "\<exists>communities sd' st.
      community_sizes N_USERS nCommunities 0 N_USERS [] sd = (communities, sd')
    \<and> sum_list communities = N_USERS \<and> length communities = nat nCommunities
    \<and> create_users communities N_USERS 0 users_init = st
    \<and> u_allUserIds st = [1 ..< nat N_USERS + 1]
    \<and> map uid (userDocs st) = u_allUserIds st
    \<and> (\<forall>d\<in>set (userDocs st). uid d \<in> set (members (u_idsByCommunity st (community d))))
    \<and> (\<forall>i\<in>set (u_allUserIds st). \<exists>!c. i \<in> set (members (u_idsByCommunity st c)))"
proof -
  obtain communities sd' where c: "community_sizes N_USERS nCommunities 0 N_USERS [] sd = (communities, sd')"
    by (cases "community_sizes N_USERS nCommunities 0 N_USERS [] sd") auto
  have "0 < nCommunities" using assms(1) by simp
  from community_sizes_sum[OF this, of N_USERS N_USERS "[]" sd] c
  have s: "sum_list communities = N_USERS" "length communities = nat nCommunities" by simp_all
  have i: "assigned_once users_init" by (simp add: assigned_once_def users_init_def members_def)
  define st where "st = create_users communities N_USERS 0 users_init"
  have o: "assigned_once st" "u_allUserIds st = [1 ..< nat N_USERS + 1]"
    using create_users_once[OF i, of communities N_USERS 0] by (simp_all add: st_def users_init_def)
  show ?thesis using c s o st_def unfolding assigned_once_def by blast
qed

lemma sizes_10_3: "community_sizes 10 3 0 10 [] 1234567 = ([3, 1, 6], 660622417)"
proof -
  have r1: "randint 1 3 1234567 = (3, 2987172410)"
    by (simp add: randint_def rand_def floor_mul_def Let_def)
  have r2: "randint 1 3 2987172410 = (1, 660622417)"
    by (simp add: randint_def rand_def floor_mul_def Let_def)
  have s0: "community_sizes 10 3 0 10 [] 1234567 = community_sizes 10 3 1 7 [3] 2987172410"
    by (subst community_sizes.simps) (simp add: r1)
  have s1: "community_sizes 10 3 1 7 [3] 2987172410 = community_sizes 10 3 2 6 [3, 1] 660622417"
    by (subst community_sizes.simps) (simp add: r2)
  have s2: "community_sizes 10 3 2 6 [3, 1] 660622417 = ([3, 1, 6], 660622417)"
    by (subst community_sizes.simps) simp
  show ?thesis by (simp only: s0 s1 s2)
qed

theorem partition_exact_witness:
  "(1::int) \<le> 3 \<and> (0::int) \<le> 10 \<and>
   (\<exists>sd' st.
      community_sizes 10 3 0 10 [] 1234567 = ([3, 1, 6], sd')
    \<and> sum_list [3, 1, 6] = (10::int) \<and> length [3, 1, 6::int] = nat 3
    \<and> create_users [3, 1, 6] 10 0 users_init = st
    \<and> u_allUserIds st = [1 ..< nat 10 + 1]
    \<and> map uid (userDocs st) = u_allUserIds st
    \<and> (\<forall>d\<in>set (userDocs st). uid d \<in> set (members (u_idsByCommunity st (community d))))
    \<and> (\<forall>i\<in>set (u_allUserIds st). \<exists>!c. i \<in> set (members (u_idsByCommunity st c))))"
proof -
  have h: "(1::int) \<le> 3" "(0::int) \<le> 10" by simp_all
  from partition_exact[OF h, of 1234567] show ?thesis unfolding sizes_10_3 using h by auto
qed

section \<open>Properties of the interaction emitter and of the whole run\<close>







lemma two_user_interactions_run:
  "\<exists>st. interactions clock two_user_interactions 1234567 = Inr st \<and>
     isubmitted st = [[\<lparr>actor = Some 2, target = Some 1, itype = Some ''message'', iweight = 2, createdAt = clock 0\<rparr>,
       \<lparr>actor = Some 2, target = Some 1, itype = Some ''view'', iweight = 1 / 2, createdAt = clock 1\<rparr>]]"
  by (simp add: interactions_def interactions_loop.simps emit_interaction_def flushInteractions_def
      try_catch_def choice_def draw_index_def floor_mul_def rand_def interactionTypes_def weight_of_def
      two_user_interactions_def interactions_init_def Let_def)










section \<open>Properties of the batch sink\<close>














end
